theory Spec2Isabelle
  imports Main "HOL-Library.Word" "HOL-Library.Monad_Syntax"
begin

unbundle bit_operations_syntax

section \<open>Data model of machtimer\_alarm.c\<close>

text \<open>
  Alarm objects live in an object store and are referred to by address, because the
  ordered array \<open>alarm_heap.data\<close> holds pointers to them and every alarm stores its
  own array index (\<open>heap_index\<close>): the claims are about this aliasing.
  An address is an index into the store \<open>objs\<close>; a pointer is \<open>NULL\<close> or \<open>Ptr a\<close>.
\<close>

datatype mp_obj_t = mp_const_none | mp_obj nat

datatype alarm_ptr = NULL | Ptr nat

record mp_obj_alarm_t =
  "when" :: "64 word"
  interval :: "64 word"
  heap_index :: "32 word"
  handler :: mp_obj_t
  handler_arg :: mp_obj_t
  periodic :: bool

text \<open>Writes to the registers of \<open>TIMERG0\<close>, in program order.\<close>

datatype reg_write =
    Alarm_en bool
  | Alarm_high "32 word"
  | Alarm_low "32 word"
  | Update
  | Int_clr_t0

text \<open>
  The global state: \<open>alarm_heap\<close> (count and the 16-slot pointer array), the alarm
  objects, the registers of hardware timer 0 of group 0 together with its free-running
  64-bit counter, and the two queues of \<open>util/mpirq\<close> the file appends to.
  Each entry point runs to completion on one state: the atomic sections of the source
  make the entry points mutually exclusive with the interrupt handler, and the counter
  is sampled at one value during an entry point.
\<close>

record machine =
  alarm_heap_count :: "32 word"
  alarm_heap_data :: "alarm_ptr list"
  objs :: "mp_obj_alarm_t list"
  hw_alarm_en :: bool
  hw_alarm_high :: "32 word"
  hw_alarm_low :: "32 word"
  hw_cnt_high :: "32 word"
  hw_cnt_low :: "32 word"
  hw_counter :: "64 word"
  hw_int_t0 :: bool
  hw_writes :: "reg_write list"
  irq_queue :: "nat list"
  irq_handlers :: "mp_obj_t list"

datatype exn = ValueError string | MemoryError string

datatype 'a outcome = Return 'a | Raise exn

definition ALARM_HEAP_MAX_ELEMENTS :: "32 word" where
  "ALARM_HEAP_MAX_ELEMENTS = 16"

section \<open>Memory accesses\<close>

text \<open>
  A function of the model returns \<open>None\<close> where the C program has undefined behaviour:
  an array access outside the allocated block, or a dereference of \<open>NULL\<close> or of an
  address that holds no alarm object.
\<close>

definition read_alarm :: "alarm_ptr \<Rightarrow> machine \<Rightarrow> mp_obj_alarm_t option" where
  "read_alarm p s =
     (case p of
        NULL \<Rightarrow> None
      | Ptr a \<Rightarrow> if a < length (objs s) then Some (objs s ! a) else None)"

definition write_alarm :: "alarm_ptr \<Rightarrow> mp_obj_alarm_t \<Rightarrow> machine \<Rightarrow> machine option" where
  "write_alarm p v s =
     (case p of
        NULL \<Rightarrow> None
      | Ptr a \<Rightarrow> if a < length (objs s) then Some (s\<lparr>objs := (objs s)[a := v]\<rparr>) else None)"

definition read_slot :: "32 word \<Rightarrow> machine \<Rightarrow> alarm_ptr option" where
  "read_slot i s =
     (if unat i < length (alarm_heap_data s) then Some (alarm_heap_data s ! unat i) else None)"

definition write_slot :: "32 word \<Rightarrow> alarm_ptr \<Rightarrow> machine \<Rightarrow> machine option" where
  "write_slot i p s =
     (if unat i < length (alarm_heap_data s)
      then Some (s\<lparr>alarm_heap_data := (alarm_heap_data s)[unat i := p]\<rparr>)
      else None)"

text \<open>\<open>p->heap_index = v\<close>\<close>

definition set_heap_index :: "alarm_ptr \<Rightarrow> 32 word \<Rightarrow> machine \<Rightarrow> machine option" where
  "set_heap_index p v s = do {
     a \<leftarrow> read_alarm p s;
     write_alarm p (a\<lparr>heap_index := v\<rparr>) s
   }"

definition reg_write :: "reg_write \<Rightarrow> machine \<Rightarrow> machine" where
  "reg_write w s =
     (let s' = s\<lparr>hw_writes := hw_writes s @ [w]\<rparr> in
      case w of
        Alarm_en b \<Rightarrow> s'\<lparr>hw_alarm_en := b\<rparr>
      | Alarm_high v \<Rightarrow> s'\<lparr>hw_alarm_high := v\<rparr>
      | Alarm_low v \<Rightarrow> s'\<lparr>hw_alarm_low := v\<rparr>
      | Update \<Rightarrow> s'\<lparr>hw_cnt_high := ucast (drop_bit 32 (hw_counter s)),
                      hw_cnt_low := ucast (hw_counter s)\<rparr>
      | Int_clr_t0 \<Rightarrow> s'\<lparr>hw_int_t0 := False\<rparr>)"

section \<open>The functions of the source\<close>

text \<open>\<open>init_alarm_heap\<close>, when \<open>gc_alloc\<close> returns a block (of 16 pointers, its content \<open>block\<close>).\<close>

definition init_alarm_heap :: "alarm_ptr list \<Rightarrow> machine \<Rightarrow> machine" where
  "init_alarm_heap block s =
     s\<lparr>alarm_heap_count := 0, alarm_heap_data := take 16 (block @ replicate 16 NULL)\<rparr>"

definition load_next_alarm :: "machine \<Rightarrow> machine option" where
  "load_next_alarm s =
     (let s1 = reg_write (Alarm_en False) s in
      if alarm_heap_count s1 > 0 then do {
        p \<leftarrow> read_slot 0 s1;
        a \<leftarrow> read_alarm p s1;
        let w = when a;
        let s2 = reg_write (Alarm_high (ucast (drop_bit 32 w))) s1;
        let s3 = reg_write (Alarm_low (ucast w)) s2;
        Some (reg_write (Alarm_en True) s3)
      } else Some s1)"

text \<open>The first loop of \<open>insert_alarm\<close>: find the place of the new element.\<close>

function insert_alarm_scan :: "alarm_ptr \<Rightarrow> 32 word \<Rightarrow> machine \<Rightarrow> 32 word option" where
  "insert_alarm_scan alarm index s =
     (if index < alarm_heap_count s then do {
        a \<leftarrow> read_alarm alarm s;
        p \<leftarrow> read_slot index s;
        b \<leftarrow> read_alarm p s;
        if when a \<le> when b then Some index
        else insert_alarm_scan alarm (index + 1) s
      } else Some index)"
  by pat_completeness auto

termination
proof -
  have succ: "unat (i + 1) = Suc (unat i)" if "i < c" for i c :: "32 word"
  proof -
    from that have "unat i < unat c" by (simp add: word_less_nat_alt)
    moreover have "unat c < 2 ^ 32" using unsigned_less [of c] by simp
    ultimately show ?thesis by (simp add: unat_word_ariths)
  qed
  show ?thesis
    by (relation "measure (\<lambda>(alarm, index, s). unat (alarm_heap_count s) - unat index)")
       (auto simp: succ word_less_nat_alt)
qed

text \<open>The second loop of \<open>insert_alarm\<close>: move the tail up by one slot.\<close>

function insert_alarm_shift :: "32 word \<Rightarrow> 32 word \<Rightarrow> machine \<Rightarrow> machine option" where
  "insert_alarm_shift index index2 s =
     (if index2 > index then do {
        p \<leftarrow> read_slot (index2 - 1) s;
        s1 \<leftarrow> write_slot index2 p s;
        q \<leftarrow> read_slot index2 s1;
        s2 \<leftarrow> set_heap_index q index2 s1;
        insert_alarm_shift index (index2 - 1) s2
      } else Some s)"
  by pat_completeness auto

termination
proof -
  have pred: "unat (c - 1) < unat c" if "i < c" for i c :: "32 word"
  proof -
    from that have "c \<noteq> 0" by auto
    then show ?thesis by (simp add: unat_minus_one unat_gt_0)
  qed
  show ?thesis
    by (relation "measure (\<lambda>(index, index2, s). unat index2)") (auto simp: pred)
qed

definition insert_alarm :: "alarm_ptr \<Rightarrow> machine \<Rightarrow> machine option" where
  "insert_alarm alarm s = do {
     (index, s1) \<leftarrow>
       (if alarm_heap_count s \<noteq> 0 then do {
          index \<leftarrow> insert_alarm_scan alarm 0 s;
          s' \<leftarrow> insert_alarm_shift index (alarm_heap_count s) s;
          Some (index, s')
        } else Some (0, s));
     s2 \<leftarrow> write_slot index alarm s1;
     s3 \<leftarrow> set_heap_index alarm index s2;
     let s4 = s3\<lparr>alarm_heap_count := alarm_heap_count s3 + 1\<rparr>;
     if index = 0 then load_next_alarm s4 else Some s4
   }"

text \<open>The loop of \<open>remove_alarm\<close>: move the entries above the removed one down.\<close>

function remove_alarm_compact :: "32 word \<Rightarrow> machine \<Rightarrow> machine option" where
  "remove_alarm_compact index s =
     (if index < alarm_heap_count s then do {
        p \<leftarrow> read_slot (index + 1) s;
        s1 \<leftarrow> write_slot index p s;
        q \<leftarrow> read_slot index s1;
        s2 \<leftarrow> set_heap_index q index s1;
        s3 \<leftarrow> write_slot (index + 1) NULL s2;
        remove_alarm_compact (index + 1) s3
      } else Some s)"
  by pat_completeness auto

termination
proof -
  have succ: "unat (i + 1) = Suc (unat i)" if "i < c" for i c :: "32 word"
  proof -
    from that have "unat i < unat c" by (simp add: word_less_nat_alt)
    moreover have "unat c < 2 ^ 32" using unsigned_less [of c] by simp
    ultimately show ?thesis by (simp add: unat_word_ariths)
  qed
  have slot: "alarm_heap_count s' = alarm_heap_count s" if "write_slot i p s = Some s'" for i p s s'
    using that by (auto simp: write_slot_def split: if_splits)
  have idx: "alarm_heap_count s' = alarm_heap_count s" if "set_heap_index p v s = Some s'" for p v s s'
    using that
    by (auto simp: set_heap_index_def read_alarm_def write_alarm_def
             split: alarm_ptr.splits if_splits bind_splits)
  show ?thesis
  proof (relation "measure (\<lambda>(index, s). unat (alarm_heap_count s) - unat index)", goal_cases)
    case 1
    show ?case by simp
  next
    case (2 index s p s1 q s2 s3)
    then have "alarm_heap_count s3 = alarm_heap_count s"
      using slot idx by metis
    with 2(1) show ?case
      by (simp add: succ [OF 2(1)] word_less_nat_alt)
  qed
qed

definition remove_alarm :: "32 word \<Rightarrow> machine \<Rightarrow> machine option" where
  "remove_alarm alarm_heap_index s = do {
     p \<leftarrow> read_slot alarm_heap_index s;
     s1 \<leftarrow> set_heap_index p (- 1) s;
     s2 \<leftarrow> write_slot alarm_heap_index NULL s1;
     let s3 = s2\<lparr>alarm_heap_count := alarm_heap_count s2 - 1\<rparr>;
     remove_alarm_compact alarm_heap_index s3
   }"

definition set_alarm_when :: "alarm_ptr \<Rightarrow> 64 word \<Rightarrow> machine \<Rightarrow> machine option" where
  "set_alarm_when alarm delta s = do {
     let s1 = reg_write Update s;
     a \<leftarrow> read_alarm alarm s1;
     s2 \<leftarrow> write_alarm alarm
             (a\<lparr>when := push_bit 32 (ucast (hw_cnt_high s1)) OR ucast (hw_cnt_low s1)\<rparr>) s1;
     a2 \<leftarrow> read_alarm alarm s2;
     write_alarm alarm (a2\<lparr>when := when a2 + delta\<rparr>) s2
   }"

text \<open>\<open>mp_irq_queue_interrupt(alarm_handler, alarm)\<close> and \<open>mp_irq_handler_add(handler)\<close>
  belong to \<open>util/mpirq\<close>; the model records their calls.\<close>

definition mp_irq_queue_interrupt :: "alarm_ptr \<Rightarrow> machine \<Rightarrow> machine option" where
  "mp_irq_queue_interrupt alarm s =
     (case alarm of NULL \<Rightarrow> None | Ptr a \<Rightarrow> Some (s\<lparr>irq_queue := irq_queue s @ [a]\<rparr>))"

definition mp_irq_handler_add :: "mp_obj_t \<Rightarrow> machine \<Rightarrow> machine" where
  "mp_irq_handler_add h s = s\<lparr>irq_handlers := irq_handlers s @ [h]\<rparr>"

definition timer_alarm_isr :: "machine \<Rightarrow> machine option" where
  "timer_alarm_isr s =
     (let s0 = reg_write Int_clr_t0 s in
      if alarm_heap_count s0 > 0 then do {
        alarm \<leftarrow> read_slot 0 s0;
        s1 \<leftarrow> remove_alarm 0 s0;
        a \<leftarrow> read_alarm alarm s1;
        s2 \<leftarrow> (if periodic a then do {
                  s' \<leftarrow> set_alarm_when alarm (interval a) s1;
                  insert_alarm alarm s'
                } else Some s1);
        s3 \<leftarrow> load_next_alarm s2;
        mp_irq_queue_interrupt alarm s3
      } else Some s0)"

definition alarm_set_callback_helper ::
    "nat \<Rightarrow> mp_obj_t \<Rightarrow> mp_obj_t \<Rightarrow> machine \<Rightarrow> (unit outcome \<times> machine) option" where
  "alarm_set_callback_helper self_in handler_v handler_arg_v s = do {
     let self = Ptr self_in;
     a \<leftarrow> read_alarm self s;
     s1 \<leftarrow> write_alarm self (a\<lparr>handler := handler_v\<rparr>) s;
     let handler_arg' = (if handler_arg_v = mp_const_none then mp_obj self_in else handler_arg_v);
     a1 \<leftarrow> read_alarm self s1;
     s2 \<leftarrow> write_alarm self (a1\<lparr>handler_arg := handler_arg'\<rparr>) s1;
     let s3 = mp_irq_handler_add handler_v s2;
     a3 \<leftarrow> read_alarm self s3;
     (error, s4) \<leftarrow>
       (if handler_v = mp_const_none then
          (if heap_index a3 \<noteq> - 1 then do {
             s' \<leftarrow> remove_alarm (heap_index a3) s3;
             Some (False, s')
           } else Some (False, s3))
        else
          (if heap_index a3 = - 1 then
             (if alarm_heap_count s3 = ALARM_HEAP_MAX_ELEMENTS then Some (True, s3)
              else do {
                s' \<leftarrow> set_alarm_when self (interval a3) s3;
                s'' \<leftarrow> insert_alarm self s';
                Some (False, s'')
              })
           else Some (False, s3)));
     Some (if error
           then Raise (MemoryError
                  ''Alarm cannot be scheduled currently, maximum 16 alarms can be ran in parallel !'')
           else Return (),
           s4)
   }"

definition alarm_callback :: "nat \<Rightarrow> mp_obj_t \<Rightarrow> mp_obj_t \<Rightarrow> machine \<Rightarrow> (unit outcome \<times> machine) option" where
  "alarm_callback self handler_v arg_v s = alarm_set_callback_helper self handler_v arg_v s"

definition alarm_delete :: "nat \<Rightarrow> machine \<Rightarrow> machine option" where
  "alarm_delete self_in s = do {
     a \<leftarrow> read_alarm (Ptr self_in) s;
     if heap_index a \<noteq> - 1 then remove_alarm (heap_index a) s else Some s
   }"

text \<open>
  \<open>alarm_make_new\<close>, after \<open>mp_arg_parse_all\<close>. Floating point is outside the model:
  the C float \<open>s\<close> enters as the values of the three expressions the function evaluates
  on it. \<open>s_arg = None\<close> is an argument \<open>s\<close> that is \<open>mp_const_none\<close>, which leaves
  \<open>s = 0.0\<close>. The arguments \<open>ms\<close> and \<open>us\<close> are the 32-bit \<open>u_int\<close> values, which the
  source stores in \<open>uint32_t\<close> variables: their comparisons are unsigned, as the order of
  \<open>32 word\<close> is. \<open>CLK_FREQ\<close> (half of \<open>APB_CLK_FREQ\<close>, which the file does not define)
  is a parameter, and so is the content \<open>blank\<close> of the block the allocator returns.
\<close>

record float_s =
  ne_zero :: bool
  lt_zero :: bool
  to_clocks :: "64 word"

definition s_default :: float_s where
  "s_default = \<lparr>ne_zero = False, lt_zero = False, to_clocks = 0\<rparr>"

definition alarm_make_new ::
    "32 word \<Rightarrow> mp_obj_alarm_t \<Rightarrow> mp_obj_t \<Rightarrow> float_s option \<Rightarrow> 32 word \<Rightarrow> 32 word \<Rightarrow> mp_obj_t \<Rightarrow> bool
      \<Rightarrow> machine \<Rightarrow> (nat outcome \<times> machine) option" where
  "alarm_make_new CLK_FREQ blank handler_v s_arg ms_arg us_arg arg_v periodic_v st =
     (let s = (case s_arg of None \<Rightarrow> s_default | Some f \<Rightarrow> f);
          ms = ms_arg;
          us = us_arg
      in
      if (of_bool (ne_zero s) + of_bool (ms \<noteq> 0) + of_bool (us \<noteq> 0) :: int) \<noteq> 1
      then Some (Raise (ValueError ''please provide a single duration''), st)
      else if lt_zero s \<or> ms < 0 \<or> us < 0
      then Some (Raise (ValueError ''please provide a positive number''), st)
      else
        let clocks = to_clocks s + ucast (ms * (CLK_FREQ div 1000))
                       + ucast (us * (CLK_FREQ div 1000000));
            self = length (objs st);
            st1 = st\<lparr>objs := objs st @
                     [blank\<lparr>interval := clocks, periodic := periodic_v, heap_index := - 1\<rparr>]\<rparr>
        in do {
          (r, st2) \<leftarrow> alarm_set_callback_helper self handler_v arg_v st1;
          Some (case r of Raise e \<Rightarrow> Raise e | Return _ \<Rightarrow> Return self, st2)
        })"

section \<open>Sequences of entry points\<close>

text \<open>
  The entry points that touch \<open>alarm_heap\<close> after initialisation: the method
  \<open>callback\<close> (activation with a handler, deactivation with \<open>None\<close>), the method
  \<open>cancel\<close> (also the finaliser), and the interrupt handler. Between them the hardware
  counter advances.
\<close>

datatype operation =
    Callback nat mp_obj_t mp_obj_t
  | Cancel nat
  | Isr
  | Advance "64 word"

fun step :: "operation \<Rightarrow> machine \<Rightarrow> machine option" where
  "step (Callback self h arg) s = map_option snd (alarm_callback self h arg s)"
| "step (Cancel self) s = alarm_delete self s"
| "step Isr s = timer_alarm_isr s"
| "step (Advance n) s = Some (s\<lparr>hw_counter := hw_counter s + n\<rparr>)"

fun run :: "operation list \<Rightarrow> machine \<Rightarrow> machine option" where
  "run [] s = Some s"
| "run (x # xs) s = do { s' \<leftarrow> step x s; run xs s' }"

fun operation_ok :: "machine \<Rightarrow> operation \<Rightarrow> bool" where
  "operation_ok s (Callback self h arg) = (self < length (objs s))"
| "operation_ok s (Cancel self) = (self < length (objs s))"
| "operation_ok s Isr = True"
| "operation_ok s (Advance n) = True"

section \<open>The Ordered Alarm Set and its invariants\<close>

text \<open>The pending alarms are the first \<open>count\<close> slots of the array.\<close>

definition pending :: "machine \<Rightarrow> alarm_ptr list" where
  "pending s = take (unat (alarm_heap_count s)) (alarm_heap_data s)"

definition deadline :: "machine \<Rightarrow> alarm_ptr \<Rightarrow> 64 word" where
  "deadline s p = (case read_alarm p s of Some a \<Rightarrow> when a | None \<Rightarrow> 0)"

definition deadlines :: "machine \<Rightarrow> 64 word list" where
  "deadlines s = map (deadline s) (pending s)"

definition member :: "machine \<Rightarrow> nat \<Rightarrow> bool" where
  "member s a \<longleftrightarrow> Ptr a \<in> set (pending s)"

text \<open>The position of alarm \<open>a\<close> is in range and its slot points back to \<open>a\<close>.\<close>

definition position_valid :: "machine \<Rightarrow> nat \<Rightarrow> bool" where
  "position_valid s a \<longleftrightarrow>
     unat (heap_index (objs s ! a)) < unat (alarm_heap_count s) \<and>
     alarm_heap_data s ! unat (heap_index (objs s ! a)) = Ptr a"

text \<open>Slot \<open>i\<close> holds a pointer to an alarm object whose position is \<open>i\<close>.\<close>

definition points_back :: "machine \<Rightarrow> nat \<Rightarrow> bool" where
  "points_back s i =
     (case alarm_heap_data s ! i of
        NULL \<Rightarrow> False
      | Ptr a \<Rightarrow> a < length (objs s) \<and> heap_index (objs s ! a) = of_nat i)"

definition position_inv :: "machine \<Rightarrow> bool" where
  "position_inv s \<longleftrightarrow>
     length (alarm_heap_data s) = 16 \<and>
     alarm_heap_count s \<le> ALARM_HEAP_MAX_ELEMENTS \<and>
     (\<forall>i \<in> {..<unat (alarm_heap_count s)}. points_back s i) \<and>
     (\<forall>a \<in> {..<length (objs s)}. heap_index (objs s ! a) \<noteq> - 1 \<longrightarrow> position_valid s a)"

definition ordered :: "machine \<Rightarrow> bool" where
  "ordered s \<longleftrightarrow> sorted (deadlines s)"

definition heap_inv :: "machine \<Rightarrow> bool" where
  "heap_inv s \<longleftrightarrow> position_inv s \<and> ordered s"

text \<open>The 64-bit value the comparator registers \<open>alarm_high\<close> and \<open>alarm_low\<close> hold.\<close>

definition alarm_value :: "machine \<Rightarrow> 64 word" where
  "alarm_value s = push_bit 32 (ucast (hw_alarm_high s)) OR ucast (hw_alarm_low s)"


text \<open>
  The stores \<open>alarm_set_callback_helper\<close> makes before it enters the atomic section:
  \<open>self->handler\<close>, \<open>self->handler_arg\<close> and the call of \<open>mp_irq_handler_add\<close>.
\<close>

definition store_callback :: "nat \<Rightarrow> mp_obj_t \<Rightarrow> mp_obj_t \<Rightarrow> machine \<Rightarrow> machine" where
  "store_callback self h arg s =
     s\<lparr>objs := (objs s)[self := (objs s ! self)
              \<lparr>handler := h, handler_arg := (if arg = mp_const_none then mp_obj self else arg)\<rparr>],
       irq_handlers := irq_handlers s @ [h]\<rparr>"

text \<open>
  The invariant in the words of the specification: the position of an alarm is valid
  exactly when the alarm is a member of the set, and it is the sentinel otherwise.
  \<open>position_inv\<close> above is its inductive form.
\<close>

definition position_linked :: "machine \<Rightarrow> bool" where
  "position_linked s \<longleftrightarrow>
     (\<forall>a \<in> {..<length (objs s)}.
        (position_valid s a \<longleftrightarrow> member s a) \<and>
        (\<not> member s a \<longrightarrow> heap_index (objs s ! a) = - 1))"


subsection \<open>The order of delivery\<close>

text \<open>\<open>x\<close> stands at a smaller index than \<open>y\<close> in the list.\<close>

definition before_in :: "'a list \<Rightarrow> 'a \<Rightarrow> 'a \<Rightarrow> bool" where
  "before_in xs x y \<longleftrightarrow> (\<exists>j \<in> {..<length xs}. \<exists>i \<in> {..<j}. xs ! i = x \<and> xs ! j = y)"

text \<open>Alarm \<open>x\<close> is pending at a smaller index than alarm \<open>y\<close>.\<close>

definition precedes :: "machine \<Rightarrow> nat \<Rightarrow> nat \<Rightarrow> bool" where
  "precedes s x y \<longleftrightarrow> before_in (pending s) (Ptr x) (Ptr y)"

text \<open>The operation is called on alarm \<open>a\<close>: it registers a callback for it or cancels it.\<close>

fun touches :: "operation \<Rightarrow> nat \<Rightarrow> bool" where
  "touches (Callback self h arg) a = (self = a)"
| "touches (Cancel self) a = (self = a)"
| "touches Isr a = False"
| "touches (Advance n) a = False"

text \<open>
  In the queue of callbacks handed to the interpreter, the first entry that is \<open>x\<close> or
  \<open>y\<close> is \<open>x\<close>.
\<close>

fun delivered_first :: "nat \<Rightarrow> nat \<Rightarrow> nat list \<Rightarrow> bool" where
  "delivered_first x y [] = False"
| "delivered_first x y (a # q) =
     (if a = x then True else if a = y then False else delivered_first x y q)"

section \<open>Example states\<close>

text \<open>
  Concrete states on which the theorems below are instantiated: \<open>machine_of slots os now\<close>
  has the pointers \<open>slots\<close> pending, the alarm objects \<open>os\<close> and the counter at \<open>now\<close>.
\<close>

definition alarm_obj :: "64 word \<Rightarrow> 64 word \<Rightarrow> 32 word \<Rightarrow> bool \<Rightarrow> mp_obj_alarm_t" where
  "alarm_obj w i h p =
     \<lparr>when = w, interval = i, heap_index = h, handler = mp_const_none,
      handler_arg = mp_const_none, periodic = p\<rparr>"

definition machine_of :: "alarm_ptr list \<Rightarrow> mp_obj_alarm_t list \<Rightarrow> 64 word \<Rightarrow> machine" where
  "machine_of slots os now =
     \<lparr>alarm_heap_count = of_nat (length slots),
      alarm_heap_data = slots @ replicate (16 - length slots) NULL,
      objs = os,
      hw_alarm_en = False, hw_alarm_high = 0, hw_alarm_low = 0,
      hw_cnt_high = 0, hw_cnt_low = 0, hw_counter = now, hw_int_t0 = False,
      hw_writes = [], irq_queue = [], irq_handlers = []\<rparr>"

text \<open>Two pending alarms, the periodic one (at address 1) first, and one idle alarm.\<close>

definition two_pending :: machine where
  "two_pending =
     machine_of [Ptr 1, Ptr 0]
       [alarm_obj 5000 5000 1 False, alarm_obj 3000 3000 0 True, alarm_obj 0 7000 (- 1) False]
       3000"

text \<open>All 16 slots taken, and one idle alarm at address 16.\<close>

definition full_machine :: machine where
  "full_machine =
     machine_of (map Ptr [0..<16])
       (map (\<lambda>i. alarm_obj (of_nat (100 * Suc i)) 100 (of_nat i) False) [0..<16]
          @ [alarm_obj 0 500 (- 1) False])
       50"

text \<open>Two pending alarms, the one-shot one (at address 0) first, and one idle alarm.\<close>

definition one_shot_first :: machine where
  "one_shot_first =
     machine_of [Ptr 0, Ptr 1]
       [alarm_obj 5000 5000 0 False, alarm_obj 6000 3000 1 True, alarm_obj 0 7000 (- 1) False]
       5000"

text \<open>One periodic alarm due now, with the counter at its last value before it wraps.\<close>

definition wrap_machine :: machine where
  "wrap_machine =
     machine_of [Ptr 0] [alarm_obj 18446744073709551615 2 0 True] 18446744073709551615"

text \<open>The state after initialisation: no alarm object, nothing pending.\<close>

definition no_alarms :: machine where
  "no_alarms = machine_of [] [] 0"

text \<open>Two idle alarms with the same interval, nothing pending.\<close>

definition idle_pair :: machine where
  "idle_pair =
     machine_of [] [alarm_obj 0 5000 (- 1) False, alarm_obj 0 5000 (- 1) False] 0"

text \<open>
  One pending alarm (at address 0) due at 5000 and an idle alarm (at address 1) whose
  interval, counted from the counter value 0, gives the same deadline.
\<close>

definition tie_machine :: machine where
  "tie_machine =
     machine_of [Ptr 0] [alarm_obj 5000 5000 0 False, alarm_obj 5000 5000 (- 1) False] 0"

section \<open>Lemmas about the memory accesses and the loops\<close>


declare insert_alarm_scan.simps [simp del]
declare insert_alarm_shift.simps [simp del]
declare remove_alarm_compact.simps [simp del]

lemma unat_of_nat_small: "j \<le> 16 \<Longrightarrow> unat (of_nat j :: 32 word) = j"
  by (simp add: unat_of_nat)

lemma of_nat_less_small: "i \<le> 16 \<Longrightarrow> j \<le> 16 \<Longrightarrow> (of_nat i :: 32 word) < of_nat j \<longleftrightarrow> i < j"
  by (simp add: word_less_nat_alt unat_of_nat_small)

lemma of_nat_pred: "0 < j \<Longrightarrow> (of_nat j :: 32 word) - 1 = of_nat (j - 1)"
  by (cases j) simp_all

lemma read_slot_nat:
  "j < length (alarm_heap_data s) \<Longrightarrow> j \<le> 16 \<Longrightarrow> read_slot (of_nat j) s = Some (alarm_heap_data s ! j)"
  by (simp add: read_slot_def unat_of_nat_small)

lemma write_slot_nat:
  "j < length (alarm_heap_data s) \<Longrightarrow> j \<le> 16 \<Longrightarrow>
   write_slot (of_nat j) p s = Some (s\<lparr>alarm_heap_data := (alarm_heap_data s)[j := p]\<rparr>)"
  by (simp add: write_slot_def unat_of_nat_small)

lemma read_alarm_Ptr: "b < length (objs s) \<Longrightarrow> read_alarm (Ptr b) s = Some (objs s ! b)"
  by (simp add: read_alarm_def)

lemma set_heap_index_Ptr:
  "b < length (objs s) \<Longrightarrow>
   set_heap_index (Ptr b) v s = Some (s\<lparr>objs := (objs s)[b := (objs s ! b)\<lparr>heap_index := v\<rparr>]\<rparr>)"
  by (simp add: set_heap_index_def read_alarm_def write_alarm_def)

lemma shift_stop: "j \<le> i \<Longrightarrow> i \<le> 16 \<Longrightarrow> insert_alarm_shift (of_nat i) (of_nat j) s = Some s"
  by (subst insert_alarm_shift.simps) (simp add: of_nat_less_small)

lemma shift_step:
  assumes "i \<le> j" "Suc j \<le> 16" "Suc j < length (alarm_heap_data s)"
    and "alarm_heap_data s ! j = Ptr b" "b < length (objs s)"
  shows "insert_alarm_shift (of_nat i) (of_nat (Suc j)) s =
         insert_alarm_shift (of_nat i) (of_nat j)
           (s\<lparr>alarm_heap_data := (alarm_heap_data s)[Suc j := Ptr b],
              objs := (objs s)[b := (objs s ! b)\<lparr>heap_index := of_nat (Suc j)\<rparr>]\<rparr>)"
proof -
  have "i \<le> 16" "Suc j \<le> 16" "i < Suc j"
    using assms(1,2) by linarith+
  then have lt: "(of_nat i :: 32 word) < of_nat (Suc j)"
    by (simp only: of_nat_less_small)
  have pred: "(of_nat (Suc j) :: 32 word) - 1 = of_nat j"
    by simp
  have r1: "read_slot (of_nat j) s = Some (Ptr b)"
    using assms(2,3,4) by (simp add: read_slot_nat)
  show ?thesis
    using assms(2,3,5)
    by (subst insert_alarm_shift.simps)
       (simp only: lt pred r1 if_True, simp del: of_nat_Suc add: write_slot_nat read_slot_nat set_heap_index_Ptr)
qed

lemma shift_spec_aux:
  assumes "i + d \<le> 16" "i + d < length (alarm_heap_data s)"
    and "\<forall>k. i \<le> k \<and> k < i + d \<longrightarrow> (\<exists>b. alarm_heap_data s ! k = Ptr b \<and> b < length (objs s))"
    and "\<forall>k k'. i \<le> k \<and> k < i + d \<and> i \<le> k' \<and> k' < i + d \<and> alarm_heap_data s ! k = alarm_heap_data s ! k' \<longrightarrow> k = k'"
  shows "\<exists>D' O'. insert_alarm_shift (of_nat i) (of_nat (i + d)) s = Some (s\<lparr>alarm_heap_data := D', objs := O'\<rparr>)
      \<and> length D' = length (alarm_heap_data s) \<and> length O' = length (objs s)
      \<and> (\<forall>k<length D'. D' ! k = (if i < k \<and> k \<le> i + d then alarm_heap_data s ! (k - 1) else alarm_heap_data s ! k))
      \<and> (\<forall>k b. i \<le> k \<and> k < i + d \<and> alarm_heap_data s ! k = Ptr b \<longrightarrow> O' ! b = (objs s ! b)\<lparr>heap_index := of_nat (Suc k)\<rparr>)
      \<and> (\<forall>b<length O'. (\<forall>k. i \<le> k \<and> k < i + d \<longrightarrow> alarm_heap_data s ! k \<noteq> Ptr b) \<longrightarrow> O' ! b = objs s ! b)"
  using assms
proof (induction d arbitrary: s)
  case 0
  then have "insert_alarm_shift (of_nat i) (of_nat (i + 0)) s = Some s"
    by (simp add: shift_stop)
  moreover have "s\<lparr>alarm_heap_data := alarm_heap_data s, objs := objs s\<rparr> = s" by simp
  ultimately show ?case
    by (intro exI [of _ "alarm_heap_data s"] exI [of _ "objs s"]) auto
next
  case (Suc d)
  let ?D = "alarm_heap_data s" and ?O = "objs s"
  let ?j = "i + d"
  from Suc.prems(3) obtain b where b: "?D ! ?j = Ptr b" "b < length ?O"
    by (metis add_Suc_right le_add1 lessI)
  define s1 where "s1 = s\<lparr>alarm_heap_data := ?D[Suc ?j := Ptr b],
              objs := ?O[b := (?O ! b)\<lparr>heap_index := of_nat (Suc ?j)\<rparr>]\<rparr>"
  have step: "insert_alarm_shift (of_nat i) (of_nat (i + Suc d)) s = insert_alarm_shift (of_nat i) (of_nat ?j) s1"
    unfolding s1_def add_Suc_right using _ _ _ b
    by (rule shift_step) (use Suc.prems(1,2) in simp_all)
  have D1: "alarm_heap_data s1 = ?D[Suc ?j := Ptr b]" and O1: "objs s1 = ?O[b := (?O ! b)\<lparr>heap_index := of_nat (Suc ?j)\<rparr>]"
    by (simp_all add: s1_def)
  have agree: "alarm_heap_data s1 ! k = ?D ! k" if "k \<le> ?j" for k
    using that by (simp add: D1)
  have agree': "alarm_heap_data s1 ! k = ?D ! k" if "k < ?j" for k
    using that by (simp add: D1)
  have p1: "?j \<le> 16" "?j < length (alarm_heap_data s1)"
    using Suc.prems(1,2) by (simp_all add: D1)
  have p4: "\<forall>k. i \<le> k \<and> k < ?j \<longrightarrow> (\<exists>b. alarm_heap_data s1 ! k = Ptr b \<and> b < length (objs s1))"
  proof (intro allI impI)
    fix k assume k: "i \<le> k \<and> k < ?j"
    then have "i \<le> k \<and> k < i + Suc d" by simp
    with Suc.prems(3) have "\<exists>b. ?D ! k = Ptr b \<and> b < length ?O" by blast
    moreover from k have "alarm_heap_data s1 ! k = ?D ! k" by (simp add: agree)
    ultimately show "\<exists>b. alarm_heap_data s1 ! k = Ptr b \<and> b < length (objs s1)"
      by (simp add: O1)
  qed
  have p5: "\<forall>k k'. i \<le> k \<and> k < ?j \<and> i \<le> k' \<and> k' < ?j \<and> alarm_heap_data s1 ! k = alarm_heap_data s1 ! k' \<longrightarrow> k = k'"
  proof (intro allI impI)
    fix k k' assume "i \<le> k \<and> k < ?j \<and> i \<le> k' \<and> k' < ?j \<and> alarm_heap_data s1 ! k = alarm_heap_data s1 ! k'"
    then have kk: "i \<le> k" "k < ?j" "i \<le> k'" "k' < ?j"
      and e: "alarm_heap_data s1 ! k = alarm_heap_data s1 ! k'" by blast+
    from kk have "alarm_heap_data s1 ! k = ?D ! k" "alarm_heap_data s1 ! k' = ?D ! k'"
      by (simp_all add: agree')
    with e have "?D ! k = ?D ! k'" by simp
    with kk have "i \<le> k \<and> k < i + Suc d \<and> i \<le> k' \<and> k' < i + Suc d \<and> ?D ! k = ?D ! k'" by simp
    with Suc.prems(4) show "k = k'" by blast
  qed
  from Suc.IH [OF p1 p4 p5] obtain D' O' where
    r: "insert_alarm_shift (of_nat i) (of_nat ?j) s1 = Some (s1\<lparr>alarm_heap_data := D', objs := O'\<rparr>)"
    and lD: "length D' = length (alarm_heap_data s1)" and lO: "length O' = length (objs s1)"
    and dD: "\<And>k. k < length D' \<Longrightarrow> D' ! k = (if i < k \<and> k \<le> ?j then alarm_heap_data s1 ! (k - 1) else alarm_heap_data s1 ! k)"
    and dO: "\<And>k b. i \<le> k \<Longrightarrow> k < ?j \<Longrightarrow> alarm_heap_data s1 ! k = Ptr b \<Longrightarrow> O' ! b = (objs s1 ! b)\<lparr>heap_index := of_nat (Suc k)\<rparr>"
    and fO: "\<And>b. b < length O' \<Longrightarrow> (\<forall>k. i \<le> k \<and> k < ?j \<longrightarrow> alarm_heap_data s1 ! k \<noteq> Ptr b) \<Longrightarrow> O' ! b = objs s1 ! b"
    by blast
  have distinct_b: "?D ! k \<noteq> Ptr b" if "i \<le> k" "k < ?j" for k
  proof
    assume "?D ! k = Ptr b"
    with that b(1) have "i \<le> k \<and> k < i + Suc d \<and> i \<le> ?j \<and> ?j < i + Suc d \<and> ?D ! k = ?D ! ?j" by simp
    with Suc.prems(4) have "k = ?j" by blast
    with that show False by simp
  qed
  have c1: "insert_alarm_shift (of_nat i) (of_nat (i + Suc d)) s = Some (s\<lparr>alarm_heap_data := D', objs := O'\<rparr>)"
    using step r by (simp add: s1_def)
  have c2: "length D' = length ?D" "length O' = length ?O"
    using lD lO by (simp_all add: D1 O1)
  have c3: "D' ! k = (if i < k \<and> k \<le> i + Suc d then ?D ! (k - 1) else ?D ! k)" if "k < length D'" for k
  proof -
    consider "k = Suc ?j" | "i < k" "k \<le> ?j" | "k \<le> i" | "Suc ?j < k" by linarith
    then show ?thesis
    proof cases
      case 1 then show ?thesis using dD [OF that] Suc.prems(2) by (simp add: D1 b)
    next
      case 2 
      then have "k - 1 \<le> ?j" "k \<noteq> Suc ?j" by simp_all
      then show ?thesis using dD [OF that] 2 by (simp add: agree)
    next
      case 3 then show ?thesis using dD [OF that] by (simp add: D1)
    next
      case 4 then show ?thesis using dD [OF that] by (simp add: D1)
    qed
  qed
  have c4: "O' ! c = (?O ! c)\<lparr>heap_index := of_nat (Suc k)\<rparr>" if "i \<le> k" "k < i + Suc d" "?D ! k = Ptr c" for k c
  proof (cases "k = ?j")
    case True
    with that b have cb: "c = b" by simp
    have "\<forall>k. i \<le> k \<and> k < ?j \<longrightarrow> alarm_heap_data s1 ! k \<noteq> Ptr b"
      using distinct_b by (simp add: agree)
    with fO [of b] b(2) have "O' ! b = objs s1 ! b" by (simp add: lO O1)
    then show ?thesis using cb True b(2) by (simp add: O1)
  next
    case False
    with that have kj: "k < ?j" by simp
    with that(1,3) distinct_b have "c \<noteq> b" by auto
    moreover from kj that(3) have "alarm_heap_data s1 ! k = Ptr c" by (simp add: agree)
    with dO [OF that(1) kj] have "O' ! c = (objs s1 ! c)\<lparr>heap_index := of_nat (Suc k)\<rparr>" by simp
    ultimately show ?thesis by (simp add: O1)
  qed
  have c5: "O' ! c = ?O ! c" if "c < length O'" "\<forall>k. i \<le> k \<and> k < i + Suc d \<longrightarrow> ?D ! k \<noteq> Ptr c" for c
  proof -
    have "i \<le> ?j \<and> ?j < i + Suc d" by simp
    with that(2) have "?D ! ?j \<noteq> Ptr c" by blast
    with b(1) have "c \<noteq> b" by auto
    moreover have "\<forall>k. i \<le> k \<and> k < ?j \<longrightarrow> alarm_heap_data s1 ! k \<noteq> Ptr c"
      using that(2) by (simp add: agree)
    with fO [OF that(1)] have "O' ! c = objs s1 ! c" by simp
    ultimately show ?thesis by (simp add: O1)
  qed
  show ?case
    apply (intro exI [of _ D'] exI [of _ O'] conjI)
    using c1 apply assumption
    using c2 apply simp
    using c2 apply simp
    using c3 apply blast
    using c4 apply blast
    using c5 apply blast
    done
qed


lemma deadline_Ptr: "b < length (objs s) \<Longrightarrow> deadline s (Ptr b) = when (objs s ! b)"
  by (simp add: deadline_def read_alarm_def)

lemma scan_stop:
  "n \<le> i \<Longrightarrow> i \<le> 16 \<Longrightarrow> alarm_heap_count s = of_nat n \<Longrightarrow>
   insert_alarm_scan alarm (of_nat i) s = Some (of_nat i)"
  by (subst insert_alarm_scan.simps) (simp add: of_nat_less_small)

lemma scan_step:
  assumes "i < n" "n \<le> 16" "alarm_heap_count s = of_nat n" "n \<le> length (alarm_heap_data s)"
    and "a < length (objs s)" "alarm_heap_data s ! i = Ptr b" "b < length (objs s)"
  shows "insert_alarm_scan (Ptr a) (of_nat i) s =
         (if when (objs s ! a) \<le> when (objs s ! b) then Some (of_nat i)
          else insert_alarm_scan (Ptr a) (of_nat (Suc i)) s)"
proof -
  have lt: "(of_nat i :: 32 word) < alarm_heap_count s"
    using assms(1,2,3) by (simp add: of_nat_less_small)
  have r: "read_slot (of_nat i) s = Some (Ptr b)"
    using assms(1,2,4,6) by (simp add: read_slot_nat)
  show ?thesis
    using assms(5,7)
    by (subst insert_alarm_scan.simps) (simp add: lt r read_alarm_Ptr add.commute)
qed

lemma scan_spec_aux:
  assumes "i + d = n" "n \<le> 16" "alarm_heap_count s = of_nat n" "n \<le> length (alarm_heap_data s)"
    and "a < length (objs s)"
    and "\<forall>k<n. \<exists>b. alarm_heap_data s ! k = Ptr b \<and> b < length (objs s)"
  shows "\<exists>idx. insert_alarm_scan (Ptr a) (of_nat i) s = Some (of_nat idx) \<and> i \<le> idx \<and> idx \<le> n
      \<and> (\<forall>k. i \<le> k \<and> k < idx \<longrightarrow> deadline s (alarm_heap_data s ! k) < when (objs s ! a))
      \<and> (idx < n \<longrightarrow> when (objs s ! a) \<le> deadline s (alarm_heap_data s ! idx))"
  using assms(1)
proof (induction d arbitrary: i)
  case 0
  then have "n \<le> i" "i \<le> 16" using assms(2) by simp_all
  then have "insert_alarm_scan (Ptr a) (of_nat i) s = Some (of_nat i)"
    using assms(3) by (rule scan_stop)
  with 0 show ?case by (intro exI [of _ i]) auto
next
  case (Suc d)
  then have lt: "i < n" by simp
  with assms(6) obtain b where b: "alarm_heap_data s ! i = Ptr b" "b < length (objs s)" by blast
  note step = scan_step [OF lt assms(2,3,4,5) b]
  show ?case
  proof (cases "when (objs s ! a) \<le> when (objs s ! b)")
    case True
    with step lt b show ?thesis
      by (intro exI [of _ i]) (auto simp: deadline_Ptr)
  next
    case False
    from Suc.prems have "Suc i + d = n" by simp
    from Suc.IH [OF this] obtain idx where
      r: "insert_alarm_scan (Ptr a) (of_nat (Suc i)) s = Some (of_nat idx)" "Suc i \<le> idx" "idx \<le> n"
      and before: "\<And>k. Suc i \<le> k \<Longrightarrow> k < idx \<Longrightarrow> deadline s (alarm_heap_data s ! k) < when (objs s ! a)"
      and at: "idx < n \<longrightarrow> when (objs s ! a) \<le> deadline s (alarm_heap_data s ! idx)"
      by blast
    have "deadline s (alarm_heap_data s ! k) < when (objs s ! a)" if "i \<le> k" "k < idx" for k
    proof (cases "k = i")
      case True
      with False b show ?thesis by (simp add: deadline_Ptr)
    next
      case False
      with that have "Suc i \<le> k" by simp
      then show ?thesis using that(2) by (rule before)
    qed
    with step False r at show ?thesis
      by (intro exI [of _ idx]) simp
  qed
qed

lemma compact_stop:
  "n \<le> i \<Longrightarrow> i \<le> 16 \<Longrightarrow> alarm_heap_count s = of_nat n \<Longrightarrow> remove_alarm_compact (of_nat i) s = Some s"
  by (subst remove_alarm_compact.simps) (simp add: of_nat_less_small)

lemma compact_step:
  assumes "i < n" "n \<le> 15" "n < length (alarm_heap_data s)" "alarm_heap_count s = of_nat n"
    and "alarm_heap_data s ! Suc i = Ptr b" "b < length (objs s)"
  shows "remove_alarm_compact (of_nat i) s =
         remove_alarm_compact (of_nat (Suc i))
           (s\<lparr>objs := (objs s)[b := (objs s ! b)\<lparr>heap_index := of_nat i\<rparr>],
              alarm_heap_data := (alarm_heap_data s)[i := Ptr b, Suc i := NULL]\<rparr>)"
proof -
  have lt: "(of_nat i :: 32 word) < alarm_heap_count s"
    using assms(1,2,4) by (simp add: of_nat_less_small)
  have succ: "(of_nat i :: 32 word) + 1 = of_nat (Suc i)" by simp
  have r1: "read_slot (of_nat (Suc i)) s = Some (Ptr b)"
    using assms(1,2,3,5) by (simp del: of_nat_Suc add: read_slot_nat)
  show ?thesis
    using assms(1,2,3,6)
    by (subst remove_alarm_compact.simps)
       (simp only: lt succ r1 if_True, simp del: of_nat_Suc add: write_slot_nat read_slot_nat set_heap_index_Ptr)
qed

lemma compact_spec_aux:
  assumes "alarm_heap_count s = of_nat (i + d)" "i + d \<le> 15" "i + d < length (alarm_heap_data s)"
    and "\<forall>k. i < k \<and> k \<le> i + d \<longrightarrow> (\<exists>b. alarm_heap_data s ! k = Ptr b \<and> b < length (objs s))"
    and "\<forall>k k'. i < k \<and> k \<le> i + d \<and> i < k' \<and> k' \<le> i + d \<and> alarm_heap_data s ! k = alarm_heap_data s ! k' \<longrightarrow> k = k'"
  shows "\<exists>D' O'. remove_alarm_compact (of_nat i) s = Some (s\<lparr>alarm_heap_data := D', objs := O'\<rparr>)
      \<and> length D' = length (alarm_heap_data s) \<and> length O' = length (objs s)
      \<and> (\<forall>k<length D'. D' ! k = (if i \<le> k \<and> k < i + d then alarm_heap_data s ! Suc k
                                 else if k = i + d \<and> 0 < d then NULL else alarm_heap_data s ! k))
      \<and> (\<forall>k b. i < k \<and> k \<le> i + d \<and> alarm_heap_data s ! k = Ptr b \<longrightarrow> O' ! b = (objs s ! b)\<lparr>heap_index := of_nat (k - 1)\<rparr>)
      \<and> (\<forall>b<length O'. (\<forall>k. i < k \<and> k \<le> i + d \<longrightarrow> alarm_heap_data s ! k \<noteq> Ptr b) \<longrightarrow> O' ! b = objs s ! b)"
  using assms
proof (induction d arbitrary: i s)
  case 0
  have "i \<le> i" "i \<le> 16" using 0(2) by simp_all
  then have "remove_alarm_compact (of_nat i) s = Some s"
    using 0(1) [simplified] by (rule compact_stop)
  moreover have "s\<lparr>alarm_heap_data := alarm_heap_data s, objs := objs s\<rparr> = s" by simp
  ultimately show ?case
    by (intro exI [of _ "alarm_heap_data s"] exI [of _ "objs s"]) auto
next
  case (Suc d)
  let ?D = "alarm_heap_data s" and ?O = "objs s"
  have "i < Suc i \<and> Suc i \<le> i + Suc d" by simp
  with Suc.prems(4) obtain b where b: "?D ! Suc i = Ptr b" "b < length ?O"
    by blast
  define s1 where "s1 = s\<lparr>objs := ?O[b := (?O ! b)\<lparr>heap_index := of_nat i\<rparr>],
              alarm_heap_data := ?D[i := Ptr b, Suc i := NULL]\<rparr>"
  have "i < i + Suc d" by simp
  then have step: "remove_alarm_compact (of_nat i) s = remove_alarm_compact (of_nat (Suc i)) s1"
    unfolding s1_def using Suc.prems(2,3,1) b by (rule compact_step)
  have D1: "alarm_heap_data s1 = ?D[i := Ptr b, Suc i := NULL]"
    and O1: "objs s1 = ?O[b := (?O ! b)\<lparr>heap_index := of_nat i\<rparr>]"
    and C1: "alarm_heap_count s1 = alarm_heap_count s"
    by (simp_all add: s1_def)
  have agree: "alarm_heap_data s1 ! k = ?D ! k" if "Suc i < k" for k
    using that by (simp add: D1)
  have p1: "alarm_heap_count s1 = of_nat (Suc i + d)" "Suc i + d \<le> 15" "Suc i + d < length (alarm_heap_data s1)"
    using Suc.prems(1,2,3) by (simp_all add: D1 C1)
  have p4: "\<forall>k. Suc i < k \<and> k \<le> Suc i + d \<longrightarrow> (\<exists>b. alarm_heap_data s1 ! k = Ptr b \<and> b < length (objs s1))"
  proof (intro allI impI)
    fix k assume k: "Suc i < k \<and> k \<le> Suc i + d"
    then have "i < k \<and> k \<le> i + Suc d" by simp
    with Suc.prems(4) have "\<exists>b. ?D ! k = Ptr b \<and> b < length ?O" by blast
    moreover from k have "alarm_heap_data s1 ! k = ?D ! k" by (simp add: agree)
    ultimately show "\<exists>b. alarm_heap_data s1 ! k = Ptr b \<and> b < length (objs s1)"
      by (simp add: O1)
  qed
  have p5: "\<forall>k k'. Suc i < k \<and> k \<le> Suc i + d \<and> Suc i < k' \<and> k' \<le> Suc i + d \<and> alarm_heap_data s1 ! k = alarm_heap_data s1 ! k' \<longrightarrow> k = k'"
  proof (intro allI impI)
    fix k k' assume "Suc i < k \<and> k \<le> Suc i + d \<and> Suc i < k' \<and> k' \<le> Suc i + d \<and> alarm_heap_data s1 ! k = alarm_heap_data s1 ! k'"
    then have kk: "Suc i < k" "k \<le> Suc i + d" "Suc i < k'" "k' \<le> Suc i + d"
      and e: "alarm_heap_data s1 ! k = alarm_heap_data s1 ! k'" by blast+
    from kk have "alarm_heap_data s1 ! k = ?D ! k" "alarm_heap_data s1 ! k' = ?D ! k'"
      by (simp_all add: agree)
    with e have "?D ! k = ?D ! k'" by simp
    with kk have "i < k \<and> k \<le> i + Suc d \<and> i < k' \<and> k' \<le> i + Suc d \<and> ?D ! k = ?D ! k'" by simp
    with Suc.prems(5) show "k = k'" by blast
  qed
  from Suc.IH [OF p1 p4 p5] obtain D' O' where
    r: "remove_alarm_compact (of_nat (Suc i)) s1 = Some (s1\<lparr>alarm_heap_data := D', objs := O'\<rparr>)"
    and lD: "length D' = length (alarm_heap_data s1)" and lO: "length O' = length (objs s1)"
    and dD: "\<And>k. k < length D' \<Longrightarrow> D' ! k = (if Suc i \<le> k \<and> k < Suc i + d then alarm_heap_data s1 ! Suc k
                                 else if k = Suc i + d \<and> 0 < d then NULL else alarm_heap_data s1 ! k)"
    and dO: "\<And>k b. Suc i < k \<Longrightarrow> k \<le> Suc i + d \<Longrightarrow> alarm_heap_data s1 ! k = Ptr b \<Longrightarrow> O' ! b = (objs s1 ! b)\<lparr>heap_index := of_nat (k - 1)\<rparr>"
    and fO: "\<And>b. b < length O' \<Longrightarrow> (\<forall>k. Suc i < k \<and> k \<le> Suc i + d \<longrightarrow> alarm_heap_data s1 ! k \<noteq> Ptr b) \<Longrightarrow> O' ! b = objs s1 ! b"
    by blast
  have distinct_b: "?D ! k \<noteq> Ptr b" if "Suc i < k" "k \<le> Suc i + d" for k
  proof
    assume "?D ! k = Ptr b"
    with that b(1) have "i < k \<and> k \<le> i + Suc d \<and> i < Suc i \<and> Suc i \<le> i + Suc d \<and> ?D ! k = ?D ! Suc i" by simp
    with Suc.prems(5) have "k = Suc i" by blast
    with that show False by simp
  qed
  have c1: "remove_alarm_compact (of_nat i) s = Some (s\<lparr>alarm_heap_data := D', objs := O'\<rparr>)"
    using step r by (simp add: s1_def)
  have c2: "length D' = length ?D" "length O' = length ?O"
    using lD lO by (simp_all add: D1 O1)
  have c3: "D' ! k = (if i \<le> k \<and> k < i + Suc d then ?D ! Suc k
                      else if k = i + Suc d \<and> 0 < Suc d then NULL else ?D ! k)" if "k < length D'" for k
  proof -
    have il: "i < length ?D" "Suc i < length ?D" using Suc.prems(3) by simp_all
    consider "k < i" | "k = i" | "Suc i \<le> k" "k < Suc i + d" | "k = Suc i + d" | "Suc i + d < k" by linarith
    then show ?thesis
    proof cases
      case 1 then show ?thesis using dD [OF that] by (simp add: D1)
    next
      case 2 then show ?thesis using dD [OF that] il by (simp add: D1 b)
    next
      case 3 then show ?thesis using dD [OF that] by (simp add: agree)
    next
      case 4 then show ?thesis using dD [OF that] il by (cases "d = 0") (simp_all add: D1)
    next
      case 5 then show ?thesis using dD [OF that] by (simp add: D1)
    qed
  qed
  have c4: "O' ! c = (?O ! c)\<lparr>heap_index := of_nat (k - 1)\<rparr>" if "i < k" "k \<le> i + Suc d" "?D ! k = Ptr c" for k c
  proof (cases "k = Suc i")
    case True
    with that b have cb: "c = b" by simp
    have "\<forall>k. Suc i < k \<and> k \<le> Suc i + d \<longrightarrow> alarm_heap_data s1 ! k \<noteq> Ptr b"
      using distinct_b by (simp add: agree)
    with fO [of b] b(2) have "O' ! b = objs s1 ! b" by (simp add: lO O1)
    then show ?thesis using cb True b(2) by (simp add: O1)
  next
    case False
    with that have kj: "Suc i < k" "k \<le> Suc i + d" by simp_all
    with that(3) distinct_b have "c \<noteq> b" by auto
    moreover from kj that(3) have "alarm_heap_data s1 ! k = Ptr c" by (simp add: agree)
    with dO [OF kj] have "O' ! c = (objs s1 ! c)\<lparr>heap_index := of_nat (k - 1)\<rparr>" by simp
    ultimately show ?thesis by (simp add: O1)
  qed
  have c5: "O' ! c = ?O ! c" if "c < length O'" "\<forall>k. i < k \<and> k \<le> i + Suc d \<longrightarrow> ?D ! k \<noteq> Ptr c" for c
  proof -
    have "i < Suc i \<and> Suc i \<le> i + Suc d" by simp
    with that(2) have "?D ! Suc i \<noteq> Ptr c" by blast
    with b(1) have "c \<noteq> b" by auto
    moreover have "\<forall>k. Suc i < k \<and> k \<le> Suc i + d \<longrightarrow> alarm_heap_data s1 ! k \<noteq> Ptr c"
      using that(2) by (simp add: agree)
    with fO [OF that(1)] have "O' ! c = objs s1 ! c" by simp
    ultimately show ?thesis by (simp add: O1)
  qed
  show ?case
    apply (intro exI [of _ D'] exI [of _ O'] conjI)
    using c1 apply assumption
    using c2 apply simp
    using c2 apply simp
    using c3 apply blast
    using c4 apply blast
    using c5 apply blast
    done
qed


lemma position_invD:
  assumes "position_inv s"
  shows "length (alarm_heap_data s) = 16"
    and "unat (alarm_heap_count s) \<le> 16"
    and "\<And>i. i < unat (alarm_heap_count s) \<Longrightarrow>
           \<exists>a. alarm_heap_data s ! i = Ptr a \<and> a < length (objs s) \<and> heap_index (objs s ! a) = of_nat i"
    and "\<And>a. a < length (objs s) \<Longrightarrow> heap_index (objs s ! a) \<noteq> - 1 \<Longrightarrow>
           unat (heap_index (objs s ! a)) < unat (alarm_heap_count s) \<and>
           alarm_heap_data s ! unat (heap_index (objs s ! a)) = Ptr a"
proof -
  show "length (alarm_heap_data s) = 16" using assms by (simp add: position_inv_def)
  show "unat (alarm_heap_count s) \<le> 16"
    using assms by (simp add: position_inv_def ALARM_HEAP_MAX_ELEMENTS_def word_le_nat_alt)
  show "\<exists>a. alarm_heap_data s ! i = Ptr a \<and> a < length (objs s) \<and> heap_index (objs s ! a) = of_nat i"
    if "i < unat (alarm_heap_count s)" for i
  proof -
    from assms that have "points_back s i" by (simp add: position_inv_def)
    then show ?thesis by (cases "alarm_heap_data s ! i") (simp_all add: points_back_def)
  qed
  show "unat (heap_index (objs s ! a)) < unat (alarm_heap_count s) \<and>
           alarm_heap_data s ! unat (heap_index (objs s ! a)) = Ptr a"
    if "a < length (objs s)" "heap_index (objs s ! a) \<noteq> - 1" for a
    using assms that by (auto simp: position_inv_def position_valid_def)
qed

lemma position_invI:
  assumes "length (alarm_heap_data s) = 16"
    and "unat (alarm_heap_count s) \<le> 16"
    and "\<And>i. i < unat (alarm_heap_count s) \<Longrightarrow>
           \<exists>a. alarm_heap_data s ! i = Ptr a \<and> a < length (objs s) \<and> heap_index (objs s ! a) = of_nat i"
    and "\<And>a. a < length (objs s) \<Longrightarrow> heap_index (objs s ! a) \<noteq> - 1 \<Longrightarrow>
           unat (heap_index (objs s ! a)) < unat (alarm_heap_count s) \<and>
           alarm_heap_data s ! unat (heap_index (objs s ! a)) = Ptr a"
  shows "position_inv s"
  unfolding position_inv_def
proof (intro conjI ballI impI)
  show "length (alarm_heap_data s) = 16" by fact
  show "alarm_heap_count s \<le> ALARM_HEAP_MAX_ELEMENTS"
    using assms(2) by (simp add: ALARM_HEAP_MAX_ELEMENTS_def word_le_nat_alt)
  show "points_back s i" if "i \<in> {..<unat (alarm_heap_count s)}" for i
    using assms(3) [of i] that by (auto simp: points_back_def)
  show "position_valid s a" if "a \<in> {..<length (objs s)}" "heap_index (objs s ! a) \<noteq> - 1" for a
    using assms(4) [of a] that by (simp add: position_valid_def)
qed

lemma count_of_nat: "alarm_heap_count s = of_nat (unat (alarm_heap_count s))"
  by simp

lemma position_inv_distinct:
  assumes "position_inv s" "i < unat (alarm_heap_count s)" "j < unat (alarm_heap_count s)"
    and "alarm_heap_data s ! i = alarm_heap_data s ! j"
  shows "i = j"
proof -
  from position_invD(3) [OF assms(1,2)] position_invD(3) [OF assms(1,3)] assms(4)
  have "(of_nat i :: 32 word) = of_nat j" by auto
  then have "unat (of_nat i :: 32 word) = unat (of_nat j :: 32 word)" by simp
  moreover have "i \<le> 16" "j \<le> 16" using position_invD(2) [OF assms(1)] assms(2,3) by simp_all
  ultimately show ?thesis by (simp add: unat_of_nat_small)
qed

lemma unat_minus1_32: "unat (- 1 :: 32 word) = 4294967295"
  by (simp add: unsigned_minus_1_eq_mask mask_eq_exp_minus_1)

lemma of_nat_neq_minus1: "k \<le> 16 \<Longrightarrow> (of_nat k :: 32 word) \<noteq> - 1"
proof
  assume "k \<le> 16" "(of_nat k :: 32 word) = - 1"
  then have "unat (of_nat k :: 32 word) = unat (- 1 :: 32 word)" by simp
  with \<open>k \<le> 16\<close> show False by (simp add: unat_of_nat_small unat_minus1_32)
qed

lemma position_inv_not_member:
  assumes "position_inv s" "heap_index (objs s ! a) = - 1" "k < unat (alarm_heap_count s)"
  shows "alarm_heap_data s ! k \<noteq> Ptr a"
proof
  assume "alarm_heap_data s ! k = Ptr a"
  with position_invD(3) [OF assms(1,3)] have "heap_index (objs s ! a) = of_nat k" by auto
  with assms(2) have "(of_nat k :: 32 word) = - 1" by simp
  moreover have "k \<le> 16" using position_invD(2) [OF assms(1)] assms(3) by simp
  ultimately show False by (simp add: of_nat_neq_minus1)
qed


lemma remove_spec:
  assumes inv: "position_inv s" and i: "i < unat (alarm_heap_count s)"
  shows "\<exists>a D' O'. alarm_heap_data s ! i = Ptr a \<and> a < length (objs s)
     \<and> remove_alarm (of_nat i) s =
         Some (s\<lparr>alarm_heap_count := of_nat (unat (alarm_heap_count s) - 1), alarm_heap_data := D', objs := O'\<rparr>)
     \<and> length D' = 16 \<and> length O' = length (objs s)
     \<and> (\<forall>k<16. D' ! k = (if k < i then alarm_heap_data s ! k
                          else if k < unat (alarm_heap_count s) - 1 then alarm_heap_data s ! Suc k
                          else if k = unat (alarm_heap_count s) - 1 then NULL
                          else alarm_heap_data s ! k))
     \<and> O' ! a = (objs s ! a)\<lparr>heap_index := - 1\<rparr>
     \<and> (\<forall>k b. i < k \<and> k < unat (alarm_heap_count s) \<and> alarm_heap_data s ! k = Ptr b
           \<longrightarrow> O' ! b = (objs s ! b)\<lparr>heap_index := of_nat (k - 1)\<rparr>)
     \<and> (\<forall>b<length (objs s). b \<noteq> a \<longrightarrow>
           (\<forall>k. i < k \<and> k < unat (alarm_heap_count s) \<longrightarrow> alarm_heap_data s ! k \<noteq> Ptr b)
           \<longrightarrow> O' ! b = objs s ! b)"
proof -
  let ?D = "alarm_heap_data s" and ?O = "objs s"
  define n where "n = unat (alarm_heap_count s)"
  define m where "m = n - 1"
  have n16: "n \<le> 16" and lD: "length ?D = 16"
    using position_invD(1,2) [OF inv] by (simp_all add: n_def)
  have i_n: "i < n" using i by (simp add: n_def)
  then have nm: "n = Suc m" and im: "i \<le> m" and m15: "m \<le> 15"
    using n16 by (simp_all add: m_def)
  have cnt: "alarm_heap_count s = of_nat n" by (simp add: n_def)
  from position_invD(3) [OF inv i] obtain a where
    a: "?D ! i = Ptr a" "a < length ?O" "heap_index (?O ! a) = of_nat i" by blast
  define s3 where "s3 = s\<lparr>objs := ?O[a := (?O ! a)\<lparr>heap_index := - 1\<rparr>],
      alarm_heap_data := ?D[i := NULL], alarm_heap_count := of_nat m\<rparr>"
  have dec: "alarm_heap_count s - 1 = of_nat m"
    unfolding cnt nm by simp
  have i16: "i \<le> 16" "i < length ?D" using i_n n16 lD by simp_all
  have start: "remove_alarm (of_nat i) s = remove_alarm_compact (of_nat i) s3"
    using a(1,2) i16 dec
    by (simp add: remove_alarm_def read_slot_nat set_heap_index_Ptr write_slot_nat s3_def)
  have D3: "alarm_heap_data s3 = ?D[i := NULL]"
    and O3: "objs s3 = ?O[a := (?O ! a)\<lparr>heap_index := - 1\<rparr>]"
    and C3: "alarm_heap_count s3 = of_nat m"
    by (simp_all add: s3_def)
  have agree: "alarm_heap_data s3 ! k = ?D ! k" if "i < k" for k
    using that by (simp add: D3)
  have valid: "\<exists>b. ?D ! k = Ptr b \<and> b < length ?O" if "k < n" for k
    using position_invD(3) [OF inv, of k] that by (auto simp: n_def)
  have dist: "k = k'" if "k < n" "k' < n" "?D ! k = ?D ! k'" for k k'
    using position_inv_distinct [OF inv, of k k'] that by (simp add: n_def)
  define d where "d = m - i"
  have md: "i + d = m" using im by (simp add: d_def)
  have p1: "alarm_heap_count s3 = of_nat (i + d)" "i + d \<le> 15" "i + d < length (alarm_heap_data s3)"
    using m15 lD by (simp_all add: md C3 D3)
  have p4: "\<forall>k. i < k \<and> k \<le> i + d \<longrightarrow> (\<exists>b. alarm_heap_data s3 ! k = Ptr b \<and> b < length (objs s3))"
  proof (intro allI impI)
    fix k assume k: "i < k \<and> k \<le> i + d"
    then have "k < n" by (simp add: md nm)
    from valid [OF this] k show "\<exists>b. alarm_heap_data s3 ! k = Ptr b \<and> b < length (objs s3)"
      by (simp add: agree O3)
  qed
  have p5: "\<forall>k k'. i < k \<and> k \<le> i + d \<and> i < k' \<and> k' \<le> i + d \<and> alarm_heap_data s3 ! k = alarm_heap_data s3 ! k' \<longrightarrow> k = k'"
  proof (intro allI impI)
    fix k k' assume "i < k \<and> k \<le> i + d \<and> i < k' \<and> k' \<le> i + d \<and> alarm_heap_data s3 ! k = alarm_heap_data s3 ! k'"
    then have kk: "i < k" "k \<le> m" "i < k'" "k' \<le> m"
      and e: "alarm_heap_data s3 ! k = alarm_heap_data s3 ! k'" by (simp_all add: md)
    from kk have "alarm_heap_data s3 ! k = ?D ! k" "alarm_heap_data s3 ! k' = ?D ! k'"
      by (simp_all add: agree)
    with e have "?D ! k = ?D ! k'" by simp
    moreover from kk have "k < n" "k' < n" by (simp_all add: nm)
    ultimately show "k = k'" by (simp add: dist)
  qed
  from compact_spec_aux [OF p1 p4 p5] obtain D' O' where
    r: "remove_alarm_compact (of_nat i) s3 = Some (s3\<lparr>alarm_heap_data := D', objs := O'\<rparr>)"
    and lD': "length D' = length (alarm_heap_data s3)" and lO': "length O' = length (objs s3)"
    and dD: "\<And>k. k < length D' \<Longrightarrow> D' ! k = (if i \<le> k \<and> k < i + d then alarm_heap_data s3 ! Suc k
                                 else if k = i + d \<and> 0 < d then NULL else alarm_heap_data s3 ! k)"
    and dO: "\<And>k b. i < k \<Longrightarrow> k \<le> i + d \<Longrightarrow> alarm_heap_data s3 ! k = Ptr b \<Longrightarrow> O' ! b = (objs s3 ! b)\<lparr>heap_index := of_nat (k - 1)\<rparr>"
    and fO: "\<And>b. b < length O' \<Longrightarrow> (\<forall>k. i < k \<and> k \<le> i + d \<longrightarrow> alarm_heap_data s3 ! k \<noteq> Ptr b) \<Longrightarrow> O' ! b = objs s3 ! b"
    by blast
  have not_a: "?D ! k \<noteq> Ptr a" if "i < k" "k < n" for k
  proof
    assume "?D ! k = Ptr a"
    with a(1) have "?D ! k = ?D ! i" by simp
    from dist [OF that(2) i_n this] that(1) show False by simp
  qed
  have c1: "remove_alarm (of_nat i) s =
         Some (s\<lparr>alarm_heap_count := of_nat (unat (alarm_heap_count s) - 1), alarm_heap_data := D', objs := O'\<rparr>)"
    using start r by (simp add: s3_def m_def n_def)
  have c2: "length D' = 16" "length O' = length ?O"
    using lD' lO' lD by (simp_all add: D3 O3)
  have c3: "D' ! k = (if k < i then ?D ! k else if k < m then ?D ! Suc k
                          else if k = m then NULL else ?D ! k)" if "k < 16" for k
  proof -
    have kl: "k < length D'" using that c2 by simp
    consider "k < i" | "i \<le> k" "k < m" | "k = m" | "m < k" by linarith
    then show ?thesis
    proof cases
      case 1 then show ?thesis using dD [OF kl] im by (simp add: D3 md)
    next
      case 2 then show ?thesis using dD [OF kl] im by (simp add: agree md)
    next
      case 3
      show ?thesis
      proof (cases "d = 0")
        case True
        with md have "i = m" by simp
        with 3 dD [OF kl] True i16 show ?thesis by (simp add: D3)
      next
        case False
        with 3 dD [OF kl] im show ?thesis by (simp add: md)
      qed
    next
      case 4 then show ?thesis using dD [OF kl] im by (simp add: D3 md)
    qed
  qed
  have c4: "O' ! a = (?O ! a)\<lparr>heap_index := - 1\<rparr>"
  proof -
    have "\<forall>k. i < k \<and> k \<le> i + d \<longrightarrow> alarm_heap_data s3 ! k \<noteq> Ptr a"
      using not_a by (simp add: agree md nm)
    with fO [of a] a(2) show ?thesis by (simp add: c2 O3)
  qed
  have c5: "O' ! b = (?O ! b)\<lparr>heap_index := of_nat (k - 1)\<rparr>" if "i < k" "k < n" "?D ! k = Ptr b" for k b
  proof -
    from not_a [OF that(1,2)] that(3) have "b \<noteq> a" by auto
    moreover from that have "k \<le> i + d" "alarm_heap_data s3 ! k = Ptr b" by (simp_all add: md nm agree)
    with dO [OF that(1)] have "O' ! b = (objs s3 ! b)\<lparr>heap_index := of_nat (k - 1)\<rparr>" by simp
    ultimately show ?thesis by (simp add: O3)
  qed
  have c6: "O' ! b = ?O ! b" if "b < length ?O" "b \<noteq> a" "\<forall>k. i < k \<and> k < n \<longrightarrow> ?D ! k \<noteq> Ptr b" for b
  proof -
    have "\<forall>k. i < k \<and> k \<le> i + d \<longrightarrow> alarm_heap_data s3 ! k \<noteq> Ptr b"
      using that(3) by (simp add: agree md nm)
    with fO [of b] that(1,2) show ?thesis by (simp add: c2 O3)
  qed
  show ?thesis
    apply (intro exI [of _ a] exI [of _ D'] exI [of _ O'] conjI)
    using a(1) apply assumption
    using a(2) apply assumption
    using c1 apply assumption
    using c2 apply simp
    using c2 apply simp
    using c3 apply (simp add: m_def n_def)
    using c4 apply assumption
    using c5 apply (simp add: n_def)
    using c6 apply (simp add: n_def)
    done
qed


lemma of_nat_eq_0_small: "idx \<le> 16 \<Longrightarrow> (of_nat idx :: 32 word) = 0 \<longleftrightarrow> idx = 0"
proof
  assume "idx \<le> 16" "(of_nat idx :: 32 word) = 0"
  then have "unat (of_nat idx :: 32 word) = 0" by simp
  with \<open>idx \<le> 16\<close> show "idx = 0" by (simp add: unat_of_nat_small)
qed simp

lemma insert_spec:
  assumes inv: "position_inv s" and a: "a < length (objs s)"
    and idle: "heap_index (objs s ! a) = - 1" and room: "unat (alarm_heap_count s) < 16"
  shows "\<exists>idx D' O'. idx \<le> unat (alarm_heap_count s)
     \<and> (\<forall>k<idx. deadline s (alarm_heap_data s ! k) < when (objs s ! a))
     \<and> (idx < unat (alarm_heap_count s) \<longrightarrow> when (objs s ! a) \<le> deadline s (alarm_heap_data s ! idx))
     \<and> insert_alarm (Ptr a) s =
         (if idx = 0
          then load_next_alarm (s\<lparr>alarm_heap_count := of_nat (Suc (unat (alarm_heap_count s))),
                                  alarm_heap_data := D', objs := O'\<rparr>)
          else Some (s\<lparr>alarm_heap_count := of_nat (Suc (unat (alarm_heap_count s))),
                       alarm_heap_data := D', objs := O'\<rparr>))
     \<and> length D' = 16 \<and> length O' = length (objs s)
     \<and> (\<forall>k<16. D' ! k = (if k < idx then alarm_heap_data s ! k
                          else if k = idx then Ptr a
                          else if k \<le> unat (alarm_heap_count s) then alarm_heap_data s ! (k - 1)
                          else alarm_heap_data s ! k))
     \<and> O' ! a = (objs s ! a)\<lparr>heap_index := of_nat idx\<rparr>
     \<and> (\<forall>k b. idx \<le> k \<and> k < unat (alarm_heap_count s) \<and> alarm_heap_data s ! k = Ptr b
           \<longrightarrow> O' ! b = (objs s ! b)\<lparr>heap_index := of_nat (Suc k)\<rparr>)
     \<and> (\<forall>b<length (objs s). b \<noteq> a \<longrightarrow>
           (\<forall>k. idx \<le> k \<and> k < unat (alarm_heap_count s) \<longrightarrow> alarm_heap_data s ! k \<noteq> Ptr b)
           \<longrightarrow> O' ! b = objs s ! b)"
proof -
  let ?D = "alarm_heap_data s" and ?O = "objs s"
  define n where "n = unat (alarm_heap_count s)"
  have n15: "n < 16" and n16: "n \<le> 16" and lD: "length ?D = 16"
    using position_invD(1) [OF inv] room by (simp_all add: n_def)
  have cnt: "alarm_heap_count s = of_nat n" by (simp add: n_def)
  have valid: "\<exists>b. ?D ! k = Ptr b \<and> b < length ?O" if "k < n" for k
    using position_invD(3) [OF inv, of k] that by (auto simp: n_def)
  have dist: "k = k'" if "k < n" "k' < n" "?D ! k = ?D ! k'" for k k'
    using position_inv_distinct [OF inv, of k k'] that by (simp add: n_def)
  have not_a: "?D ! k \<noteq> Ptr a" if "k < n" for k
    using position_inv_not_member [OF inv idle, of k] that by (simp add: n_def)
  \<comment> \<open>the first loop\<close>
  have "0 + n = n" "n \<le> length ?D" using lD n16 by simp_all
  from scan_spec_aux [OF this(1) n16 cnt this(2) a] valid obtain idx where
    scan: "insert_alarm_scan (Ptr a) (of_nat 0) s = Some (of_nat idx)" and idx: "idx \<le> n"
    and before: "\<And>k. k < idx \<Longrightarrow> deadline s (?D ! k) < when (?O ! a)"
    and at: "idx < n \<longrightarrow> when (?O ! a) \<le> deadline s (?D ! idx)"
    by auto
  \<comment> \<open>the second loop\<close>
  define d where "d = n - idx"
  have nd: "idx + d = n" using idx by (simp add: d_def)
  have p1: "idx + d \<le> 16" "idx + d < length ?D" using n15 lD by (simp_all add: nd)
  have p3: "\<forall>k. idx \<le> k \<and> k < idx + d \<longrightarrow> (\<exists>b. ?D ! k = Ptr b \<and> b < length ?O)"
    using valid by (simp add: nd)
  have p4: "\<forall>k k'. idx \<le> k \<and> k < idx + d \<and> idx \<le> k' \<and> k' < idx + d \<and> ?D ! k = ?D ! k' \<longrightarrow> k = k'"
    using dist by (simp add: nd)
  from shift_spec_aux [OF p1 p3 p4] obtain D1 O1 where
    shift: "insert_alarm_shift (of_nat idx) (of_nat n) s = Some (s\<lparr>alarm_heap_data := D1, objs := O1\<rparr>)"
    and lD1: "length D1 = 16" and lO1: "length O1 = length ?O"
    and dD: "\<And>k. k < 16 \<Longrightarrow> D1 ! k = (if idx < k \<and> k \<le> n then ?D ! (k - 1) else ?D ! k)"
    and dO: "\<And>k b. idx \<le> k \<Longrightarrow> k < n \<Longrightarrow> ?D ! k = Ptr b \<Longrightarrow> O1 ! b = (?O ! b)\<lparr>heap_index := of_nat (Suc k)\<rparr>"
    and fO: "\<And>b. b < length ?O \<Longrightarrow> (\<forall>k. idx \<le> k \<and> k < n \<longrightarrow> ?D ! k \<noteq> Ptr b) \<Longrightarrow> O1 ! b = ?O ! b"
    unfolding nd lD by auto
  have first: "(if alarm_heap_count s \<noteq> 0 then do {
          index \<leftarrow> insert_alarm_scan (Ptr a) 0 s;
          s' \<leftarrow> insert_alarm_shift index (alarm_heap_count s) s;
          Some (index, s')
        } else Some (0, s)) = Some (of_nat idx, s\<lparr>alarm_heap_data := D1, objs := O1\<rparr>)"
  proof (cases "n = 0")
    case True
    with idx have i0: "idx = 0" by simp
    have "s\<lparr>alarm_heap_data := D1, objs := O1\<rparr> = s"
      using shift shift_stop [of n idx s] True i0 by simp
    with True i0 show ?thesis by (simp add: cnt)
  next
    case False
    then have "alarm_heap_count s \<noteq> 0"
      using n16 by (simp add: cnt of_nat_eq_0_small)
    with scan shift show ?thesis by (simp add: cnt)
  qed
  define D' where "D' = D1[idx := Ptr a]"
  define O' where "O' = O1[a := (O1 ! a)\<lparr>heap_index := of_nat idx\<rparr>]"
  have idx16: "idx \<le> 16" "idx < length D1" using idx n15 lD1 by simp_all
  have O1a: "O1 ! a = ?O ! a"
    using fO [OF a] not_a by simp
  have inc: "alarm_heap_count s + 1 = of_nat (Suc n)"
    by (simp add: cnt)
  have res: "insert_alarm (Ptr a) s =
         (if idx = 0
          then load_next_alarm (s\<lparr>alarm_heap_count := of_nat (Suc n), alarm_heap_data := D', objs := O'\<rparr>)
          else Some (s\<lparr>alarm_heap_count := of_nat (Suc n), alarm_heap_data := D', objs := O'\<rparr>))"
  proof -
    have ord: "s\<lparr>alarm_heap_data := X, objs := Y, alarm_heap_count := c\<rparr>
               = s\<lparr>alarm_heap_count := c, alarm_heap_data := X, objs := Y\<rparr>" for c X Y
      by simp
    show ?thesis
      unfolding insert_alarm_def first
      using idx16 a inc
      by (simp del: of_nat_Suc
               add: write_slot_nat set_heap_index_Ptr lO1 D'_def O'_def of_nat_eq_0_small ord)
  qed
  have c3: "D' ! k = (if k < idx then ?D ! k else if k = idx then Ptr a
                          else if k \<le> n then ?D ! (k - 1) else ?D ! k)" if "k < 16" for k
    using dD [OF that] that idx16 lD1 by (auto simp: D'_def)
  have c4: "O' ! a = (?O ! a)\<lparr>heap_index := of_nat idx\<rparr>"
    using a by (simp add: O'_def lO1 O1a)
  have c5: "O' ! b = (?O ! b)\<lparr>heap_index := of_nat (Suc k)\<rparr>" if "idx \<le> k" "k < n" "?D ! k = Ptr b" for k b
  proof -
    from not_a [OF that(2)] that(3) have "b \<noteq> a" by auto
    then show ?thesis using dO [OF that] by (simp add: O'_def)
  qed
  have c6: "O' ! b = ?O ! b" if "b < length ?O" "b \<noteq> a" "\<forall>k. idx \<le> k \<and> k < n \<longrightarrow> ?D ! k \<noteq> Ptr b" for b
    using fO [OF that(1,3)] that(2) by (simp add: O'_def)
  show ?thesis
    apply (intro exI [of _ idx] exI [of _ D'] exI [of _ O'] conjI)
    using idx apply (simp add: n_def)
    using before apply simp
    using at apply (simp add: n_def)
    using res apply (simp only: n_def)
    using lD1 apply (simp add: D'_def)
    using lO1 apply (simp add: O'_def)
    using c3 apply (simp add: n_def)
    using c4 apply assumption
    using c5 apply (simp only: n_def, blast)
    using c6 apply (simp only: n_def, blast)
    done
qed


lemma cat_halves: "push_bit 32 (ucast (ucast (drop_bit 32 w) :: 32 word)) OR ucast (ucast w :: 32 word) = (w :: 64 word)"
  by (rule bit_word_eqI) (auto simp: bit_simps)

lemma reg_write_heap [simp]:
  "alarm_heap_count (reg_write w s) = alarm_heap_count s"
  "alarm_heap_data (reg_write w s) = alarm_heap_data s"
  "objs (reg_write w s) = objs s"
  "irq_queue (reg_write w s) = irq_queue s"
  "irq_handlers (reg_write w s) = irq_handlers s"
  "hw_counter (reg_write w s) = hw_counter s"
  "hw_writes (reg_write w s) = hw_writes s @ [w]"
  by (cases w; simp add: reg_write_def)+

lemma count_pos_iff: "0 < alarm_heap_count s \<longleftrightarrow> 0 < unat (alarm_heap_count s)"
  by (simp add: word_less_nat_alt)

lemma load_next_alarm_empty:
  "alarm_heap_count s = 0 \<Longrightarrow> load_next_alarm s = Some (reg_write (Alarm_en False) s)"
  by (simp add: load_next_alarm_def Let_def)

lemma load_next_alarm_pending:
  assumes "position_inv s" "alarm_heap_count s \<noteq> 0"
  shows "load_next_alarm s =
     Some (reg_write (Alarm_en True)
            (reg_write (Alarm_low (ucast (deadline s (alarm_heap_data s ! 0))))
              (reg_write (Alarm_high (ucast (drop_bit 32 (deadline s (alarm_heap_data s ! 0)))))
                (reg_write (Alarm_en False) s))))"
proof -
  from assms(2) have pos: "0 < unat (alarm_heap_count s)" by (simp add: unat_gt_0)
  from position_invD(3) [OF assms(1) pos] obtain b where
    b: "alarm_heap_data s ! 0 = Ptr b" "b < length (objs s)" by blast
  have r: "read_slot 0 (reg_write (Alarm_en False) s) = Some (Ptr b)"
    using b(1) position_invD(1) [OF assms(1)] by (simp add: read_slot_def)
  have "0 < alarm_heap_count s" using pos by (simp add: word_less_nat_alt)
  then show ?thesis
    using b by (simp add: load_next_alarm_def Let_def r read_alarm_def deadline_def)
qed

lemma load_next_alarm_frame:
  assumes "load_next_alarm s = Some s'"
  shows "alarm_heap_count s' = alarm_heap_count s" "alarm_heap_data s' = alarm_heap_data s"
    "objs s' = objs s" "irq_queue s' = irq_queue s" "irq_handlers s' = irq_handlers s"
    "hw_counter s' = hw_counter s"
  using assms
  by (auto simp: load_next_alarm_def Let_def split: if_splits bind_splits)

lemma sorted_hd_Min: "sorted xs \<Longrightarrow> xs \<noteq> [] \<Longrightarrow> hd xs = Min (set xs)"
  by (cases xs) (auto intro!: Min_eqI [symmetric])

lemma deadlines_hd:
  assumes "position_inv s" "alarm_heap_count s \<noteq> 0"
  shows "deadlines s \<noteq> []" "hd (deadlines s) = deadline s (alarm_heap_data s ! 0)"
proof -
  from assms(2) have pos: "0 < unat (alarm_heap_count s)" by (simp add: unat_gt_0)
  with position_invD(1) [OF assms(1)] show "deadlines s \<noteq> []"
    by (auto simp: deadlines_def pending_def)
  then show "hd (deadlines s) = deadline s (alarm_heap_data s ! 0)"
    using pos position_invD(1) [OF assms(1)]
    by (simp add: deadlines_def pending_def hd_map hd_conv_nth)
qed


lemma unat_count_pred:
  "n \<le> 16 \<Longrightarrow> unat (of_nat (n - 1) :: 32 word) = n - 1"
  by (simp add: unat_of_nat_small)

lemma remove_effect:
  assumes inv: "position_inv s" and i: "i < unat (alarm_heap_count s)"
  shows "\<exists>a s'. alarm_heap_data s ! i = Ptr a \<and> a < length (objs s)
     \<and> remove_alarm (of_nat i) s = Some s'
     \<and> position_inv s'
     \<and> unat (alarm_heap_count s') = unat (alarm_heap_count s) - 1
     \<and> pending s' = take i (pending s) @ drop (Suc i) (pending s)
     \<and> length (objs s') = length (objs s)
     \<and> (\<forall>b<length (objs s). objs s' ! b = (objs s ! b)\<lparr>heap_index := heap_index (objs s' ! b)\<rparr>)
     \<and> heap_index (objs s' ! a) = - 1
     \<and> (\<forall>b<length (objs s). heap_index (objs s ! b) = - 1 \<longrightarrow> objs s' ! b = objs s ! b)
     \<and> s' = s\<lparr>alarm_heap_count := alarm_heap_count s', alarm_heap_data := alarm_heap_data s',
                objs := objs s'\<rparr>"
proof -
  let ?D = "alarm_heap_data s" and ?O = "objs s"
  define n where "n = unat (alarm_heap_count s)"
  have n16: "n \<le> 16" and lD: "length ?D = 16"
    using position_invD(1,2) [OF inv] by (simp_all add: n_def)
  have i_n: "i < n" using i by (simp add: n_def)
  have valid: "\<exists>b. ?D ! k = Ptr b \<and> b < length ?O \<and> heap_index (?O ! b) = of_nat k" if "k < n" for k
    using position_invD(3) [OF inv, of k] that by (simp add: n_def)
  have bk: "unat (heap_index (?O ! b)) < n \<and> ?D ! unat (heap_index (?O ! b)) = Ptr b"
    if "b < length ?O" "heap_index (?O ! b) \<noteq> - 1" for b
    using position_invD(4) [OF inv that] by (simp add: n_def)
  have dist: "k = k'" if "k < n" "k' < n" "?D ! k = ?D ! k'" for k k'
    using position_inv_distinct [OF inv, of k k'] that by (simp add: n_def)
  from remove_spec [OF inv i] obtain a D' O' where
    a: "?D ! i = Ptr a" "a < length ?O"
    and r: "remove_alarm (of_nat i) s =
         Some (s\<lparr>alarm_heap_count := of_nat (n - 1), alarm_heap_data := D', objs := O'\<rparr>)"
    and lD': "length D' = 16" and lO': "length O' = length ?O"
    and dD: "\<And>k. k < 16 \<Longrightarrow> D' ! k = (if k < i then ?D ! k else if k < n - 1 then ?D ! Suc k
                          else if k = n - 1 then NULL else ?D ! k)"
    and Oa: "O' ! a = (?O ! a)\<lparr>heap_index := - 1\<rparr>"
    and dO: "\<And>k b. i < k \<Longrightarrow> k < n \<Longrightarrow> ?D ! k = Ptr b \<Longrightarrow> O' ! b = (?O ! b)\<lparr>heap_index := of_nat (k - 1)\<rparr>"
    and fO: "\<And>b. b < length ?O \<Longrightarrow> b \<noteq> a \<Longrightarrow> (\<forall>k. i < k \<and> k < n \<longrightarrow> ?D ! k \<noteq> Ptr b) \<Longrightarrow> O' ! b = ?O ! b"
    unfolding n_def by blast
  define s' where "s' = s\<lparr>alarm_heap_count := of_nat (n - 1), alarm_heap_data := D', objs := O'\<rparr>"
  have sel: "alarm_heap_count s' = of_nat (n - 1)" "alarm_heap_data s' = D'" "objs s' = O'"
    by (simp_all add: s'_def)
  have un: "unat (alarm_heap_count s') = n - 1"
  proof -
    have "n - 1 \<le> 16" using n16 by simp
    then show ?thesis by (simp only: sel unat_of_nat_small)
  qed
  \<comment> \<open>where an alarm of the old state ends up\<close>
  have low: "O' ! c = ?O ! c" if "k < i" "?D ! k = Ptr c" "c < length ?O" for k c
  proof -
    from that(1) i_n have kn: "k < n" by simp
    have "c \<noteq> a"
    proof
      assume "c = a"
      with that(2) a(1) have "?D ! k = ?D ! i" by simp
      from dist [OF kn i_n this] that(1) show False by simp
    qed
    moreover have "\<forall>k'. i < k' \<and> k' < n \<longrightarrow> ?D ! k' \<noteq> Ptr c"
    proof (intro allI impI notI)
      fix k' assume k': "i < k' \<and> k' < n" and "?D ! k' = Ptr c"
      with that(2) have "?D ! k' = ?D ! k" by simp
      from dist [OF _ kn this] k' that(1) show False by simp
    qed
    ultimately show ?thesis using fO [OF that(3)] by simp
  qed
  have pi: "position_inv s'"
  proof (rule position_invI)
    show "length (alarm_heap_data s') = 16" by (simp add: sel lD')
    show "unat (alarm_heap_count s') \<le> 16" using n16 by (simp add: un)
    show "\<exists>c. alarm_heap_data s' ! k = Ptr c \<and> c < length (objs s') \<and> heap_index (objs s' ! c) = of_nat k"
      if "k < unat (alarm_heap_count s')" for k
    proof -
      from that have k: "k < n - 1" by (simp add: un)
      then have k16: "k < 16" using n16 by simp
      show ?thesis
      proof (cases "k < i")
        case True
        from k have "k < n" by simp
        from valid [OF this] obtain c where c: "?D ! k = Ptr c" "c < length ?O" "heap_index (?O ! c) = of_nat k"
          by blast
        from low [OF True c(1,2)] c dD [OF k16] True show ?thesis
          by (simp add: sel lO')
      next
        case False
        from k have sk: "Suc k < n" by simp
        from valid [OF this] obtain c where c: "?D ! Suc k = Ptr c" "c < length ?O"
          by blast
        from False have "i < Suc k" by simp
        from dO [OF this sk c(1)] c dD [OF k16] False k show ?thesis
          by (simp add: sel lO')
      qed
    qed
    show "unat (heap_index (objs s' ! c)) < unat (alarm_heap_count s') \<and>
           alarm_heap_data s' ! unat (heap_index (objs s' ! c)) = Ptr c"
      if "c < length (objs s')" "heap_index (objs s' ! c) \<noteq> - 1" for c
    proof -
      from that(1) have cl: "c < length ?O" by (simp add: sel lO')
      from that(2) Oa have ca: "c \<noteq> a" by (auto simp: sel)
      show ?thesis
      proof (cases "\<exists>k. i < k \<and> k < n \<and> ?D ! k = Ptr c")
        case True
        then obtain k where k: "i < k" "k < n" "?D ! k = Ptr c" by blast
        from dO [OF this] have hi: "heap_index (O' ! c) = of_nat (k - 1)" by simp
        have k1: "k - 1 < 16" "k - 1 \<le> 16" "\<not> k - 1 < i" "k - 1 < n - 1" "Suc (k - 1) = k"
          using k n16 by simp_all
        have "unat (heap_index (O' ! c)) = k - 1"
          using k1(2) by (simp add: hi unat_of_nat_small)
        moreover have "D' ! (k - 1) = Ptr c"
          using dD [OF k1(1)] k1 k(3) by simp
        ultimately show ?thesis using k1 by (simp add: sel(2,3) un)
      next
        case False
        with fO [OF cl ca] have same: "O' ! c = ?O ! c" by blast
        with that(2) have "heap_index (?O ! c) \<noteq> - 1" by (simp add: sel)
        from bk [OF cl this] have b: "unat (heap_index (?O ! c)) < n"
          "?D ! unat (heap_index (?O ! c)) = Ptr c" by simp_all
        define k where "k = unat (heap_index (?O ! c))"
        have kn: "k < n" and kc: "?D ! k = Ptr c" using b by (simp_all add: k_def)
        have "k \<noteq> i" using kc a(1) ca by auto
        moreover have "\<not> i < k" using False kn kc by blast
        ultimately have ki: "k < i" by simp
        then have "k < 16" "k < n - 1" using i_n n16 by simp_all
        with dD [of k] ki kc same show ?thesis
          by (simp add: sel(2,3) un k_def)
      qed
    qed
  qed
  have lP: "length (pending s) = n" using lD n16 by (simp add: pending_def n_def)
  have nP: "pending s ! j = ?D ! j" if "j < n" for j using that by (simp add: pending_def n_def)
  have lP': "length (pending s') = n - 1" using lD' n16 by (simp add: pending_def un sel(2))
  have nP': "pending s' ! j = D' ! j" if "j < n - 1" for j using that by (simp add: pending_def un sel(2))
  have pend: "pending s' = take i (pending s) @ drop (Suc i) (pending s)"
  proof (rule nth_equalityI)
    show "length (pending s') = length (take i (pending s) @ drop (Suc i) (pending s))"
      using i_n by (simp add: lP lP')
    show "pending s' ! k = (take i (pending s) @ drop (Suc i) (pending s)) ! k" if "k < length (pending s')" for k
    proof -
      from that have k: "k < n - 1" by (simp add: lP')
      then have k16: "k < 16" using n16 by simp
      show ?thesis
      proof (cases "k < i")
        case True
        then have "(take i (pending s) @ drop (Suc i) (pending s)) ! k = pending s ! k"
          using i_n by (simp add: nth_append lP)
        also have "\<dots> = ?D ! k" using k by (simp add: nP)
        finally show ?thesis using dD [OF k16] True by (simp add: nP' [OF k])
      next
        case False
        then have e: "Suc i + (k - i) = Suc k" by simp
        from False have "(take i (pending s) @ drop (Suc i) (pending s)) ! k = drop (Suc i) (pending s) ! (k - i)"
          using i_n by (simp add: nth_append lP)
        also have "\<dots> = pending s ! Suc k" using k e by (simp add: lP)
        also have "\<dots> = ?D ! Suc k" using k by (simp add: nP)
        finally show ?thesis using dD [OF k16] False k by (simp add: nP' [OF k])
      qed
    qed
  qed
  have only_hi: "O' ! b = (?O ! b)\<lparr>heap_index := heap_index (O' ! b)\<rparr>" if "b < length ?O" for b
  proof (cases "b = a")
    case True
    then show ?thesis using Oa by simp
  next
    case False
    show ?thesis
    proof (cases "\<exists>k. i < k \<and> k < n \<and> ?D ! k = Ptr b")
      case True
      then obtain k where k: "i < k" "k < n" "?D ! k = Ptr b" by blast
      from dO [OF this] show ?thesis by simp
    next
      case F: False
      with fO [OF that False] show ?thesis by simp
    qed
  qed
  have idle: "O' ! b = ?O ! b" if "b < length ?O" "heap_index (?O ! b) = - 1" for b
  proof -
    have na: "?D ! k \<noteq> Ptr b" if "k < n" for k
      using position_inv_not_member [OF inv \<open>heap_index (?O ! b) = - 1\<close>, of k] that by (simp add: n_def)
    have "b \<noteq> a" using na [OF i_n] a(1) by auto
    with fO [OF that(1)] na show ?thesis by simp
  qed
  show ?thesis
    apply (intro exI [of _ a] exI [of _ s'] conjI)
    using a(1) apply assumption
    using a(2) apply assumption
    using r apply (simp add: s'_def)
    using pi apply assumption
    using un apply (simp add: n_def)
    using pend apply assumption
    using lO' apply (simp add: sel)
    using only_hi apply (simp add: sel)
    using Oa apply (simp add: sel)
    using idle apply (simp add: sel)
    apply (simp add: s'_def)
    done
qed


lemma heap_cong:
  assumes "alarm_heap_count s' = alarm_heap_count s" "alarm_heap_data s' = alarm_heap_data s"
    "objs s' = objs s"
  shows "position_inv s' = position_inv s" "pending s' = pending s" "deadline s' = deadline s"
    "deadlines s' = deadlines s" "ordered s' = ordered s" "heap_inv s' = heap_inv s"
proof -
  show 1: "position_inv s' = position_inv s"
    by (simp only: position_inv_def points_back_def position_valid_def assms)
  show 2: "pending s' = pending s" using assms by (simp add: pending_def)
  show 3: "deadline s' = deadline s" by (simp only: deadline_def read_alarm_def assms fun_eq_iff) simp
  show 4: "deadlines s' = deadlines s" using 2 3 by (simp add: deadlines_def)
  show 5: "ordered s' = ordered s" using 4 by (simp add: ordered_def)
  show "heap_inv s' = heap_inv s" using 1 5 by (simp add: heap_inv_def)
qed

lemma insert_effect:
  assumes inv: "position_inv s" and a: "a < length (objs s)"
    and idle: "heap_index (objs s ! a) = - 1" and room: "unat (alarm_heap_count s) < 16"
  shows "\<exists>idx s4 s'. insert_alarm (Ptr a) s = Some s'
     \<and> s4 = s\<lparr>alarm_heap_count := alarm_heap_count s', alarm_heap_data := alarm_heap_data s',
                objs := objs s'\<rparr>
     \<and> (if idx = 0 then load_next_alarm s4 = Some s' else s' = s4)
     \<and> position_inv s'
     \<and> unat (alarm_heap_count s') = Suc (unat (alarm_heap_count s))
     \<and> idx \<le> unat (alarm_heap_count s)
     \<and> (\<forall>k<idx. deadline s (alarm_heap_data s ! k) < when (objs s ! a))
     \<and> (idx < unat (alarm_heap_count s) \<longrightarrow> when (objs s ! a) \<le> deadline s (alarm_heap_data s ! idx))
     \<and> pending s' = take idx (pending s) @ Ptr a # drop idx (pending s)
     \<and> length (objs s') = length (objs s)
     \<and> (\<forall>b<length (objs s). objs s' ! b = (objs s ! b)\<lparr>heap_index := heap_index (objs s' ! b)\<rparr>)
     \<and> heap_index (objs s' ! a) = of_nat idx
     \<and> (\<forall>b<length (objs s). b \<noteq> a \<longrightarrow> heap_index (objs s ! b) = - 1 \<longrightarrow> objs s' ! b = objs s ! b)"
proof -
  let ?D = "alarm_heap_data s" and ?O = "objs s"
  define n where "n = unat (alarm_heap_count s)"
  have n15: "n < 16" and n16: "n \<le> 16" and lD: "length ?D = 16"
    using position_invD(1) [OF inv] room by (simp_all add: n_def)
  have valid: "\<exists>b. ?D ! k = Ptr b \<and> b < length ?O \<and> heap_index (?O ! b) = of_nat k" if "k < n" for k
    using position_invD(3) [OF inv, of k] that by (simp add: n_def)
  have bk: "unat (heap_index (?O ! b)) < n \<and> ?D ! unat (heap_index (?O ! b)) = Ptr b"
    if "b < length ?O" "heap_index (?O ! b) \<noteq> - 1" for b
    using position_invD(4) [OF inv that] by (simp add: n_def)
  have dist: "k = k'" if "k < n" "k' < n" "?D ! k = ?D ! k'" for k k'
    using position_inv_distinct [OF inv, of k k'] that by (simp add: n_def)
  have not_a: "?D ! k \<noteq> Ptr a" if "k < n" for k
    using position_inv_not_member [OF inv idle, of k] that by (simp add: n_def)
  from insert_spec [OF inv a idle room] obtain idx D' O' where
    idx: "idx \<le> n"
    and before: "\<forall>k<idx. deadline s (?D ! k) < when (?O ! a)"
    and at: "idx < n \<longrightarrow> when (?O ! a) \<le> deadline s (?D ! idx)"
    and res: "insert_alarm (Ptr a) s =
         (if idx = 0
          then load_next_alarm (s\<lparr>alarm_heap_count := of_nat (Suc n), alarm_heap_data := D', objs := O'\<rparr>)
          else Some (s\<lparr>alarm_heap_count := of_nat (Suc n), alarm_heap_data := D', objs := O'\<rparr>))"
    and lD': "length D' = 16" and lO': "length O' = length ?O"
    and dD: "\<And>k. k < 16 \<Longrightarrow> D' ! k = (if k < idx then ?D ! k else if k = idx then Ptr a
                          else if k \<le> n then ?D ! (k - 1) else ?D ! k)"
    and Oa: "O' ! a = (?O ! a)\<lparr>heap_index := of_nat idx\<rparr>"
    and dO: "\<And>k b. idx \<le> k \<Longrightarrow> k < n \<Longrightarrow> ?D ! k = Ptr b \<Longrightarrow> O' ! b = (?O ! b)\<lparr>heap_index := of_nat (Suc k)\<rparr>"
    and fO: "\<And>b. b < length ?O \<Longrightarrow> b \<noteq> a \<Longrightarrow> (\<forall>k. idx \<le> k \<and> k < n \<longrightarrow> ?D ! k \<noteq> Ptr b) \<Longrightarrow> O' ! b = ?O ! b"
    unfolding n_def by blast
  define s4 where "s4 = s\<lparr>alarm_heap_count := of_nat (Suc n), alarm_heap_data := D', objs := O'\<rparr>"
  have sel: "alarm_heap_count s4 = of_nat (Suc n)" "alarm_heap_data s4 = D'" "objs s4 = O'"
    by (simp_all add: s4_def)
  have un: "unat (alarm_heap_count s4) = Suc n"
  proof -
    have "Suc n \<le> 16" using n15 by simp
    then show ?thesis by (simp only: sel unat_of_nat_small)
  qed
  have low: "O' ! c = ?O ! c" if "k < idx" "?D ! k = Ptr c" "c < length ?O" for k c
  proof -
    from that(1) idx have kn: "k < n" by simp
    from not_a [OF kn] that(2) have "c \<noteq> a" by auto
    moreover have "\<forall>k'. idx \<le> k' \<and> k' < n \<longrightarrow> ?D ! k' \<noteq> Ptr c"
    proof (intro allI impI notI)
      fix k' assume k': "idx \<le> k' \<and> k' < n" and "?D ! k' = Ptr c"
      with that(2) have "?D ! k' = ?D ! k" by simp
      from dist [OF _ kn this] k' that(1) show False by simp
    qed
    ultimately show ?thesis using fO [OF that(3)] by simp
  qed
  have pi4: "position_inv s4"
  proof (rule position_invI)
    show "length (alarm_heap_data s4) = 16" by (simp add: sel lD')
    show "unat (alarm_heap_count s4) \<le> 16" using n15 by (simp add: un)
    show "\<exists>c. alarm_heap_data s4 ! k = Ptr c \<and> c < length (objs s4) \<and> heap_index (objs s4 ! c) = of_nat k"
      if "k < unat (alarm_heap_count s4)" for k
    proof -
      from that have k: "k < Suc n" by (simp add: un)
      then have k16: "k < 16" using n15 by simp
      consider "k < idx" | "k = idx" | "idx < k" by linarith
      then show ?thesis
      proof cases
        case 1
        with idx have "k < n" by simp
        from valid [OF this] obtain c where c: "?D ! k = Ptr c" "c < length ?O" "heap_index (?O ! c) = of_nat k"
          by blast
        from low [OF 1 c(1,2)] c dD [OF k16] 1 show ?thesis
          by (simp add: sel(2,3) lO')
      next
        case 2
        with dD [OF k16] Oa a show ?thesis by (simp add: sel(2,3) lO')
      next
        case 3
        then have k1: "idx \<le> k - 1" "k - 1 < n" "Suc (k - 1) = k" using k by simp_all
        from valid [OF k1(2)] obtain c where c: "?D ! (k - 1) = Ptr c" "c < length ?O"
          by blast
        from dO [OF k1(1,2) c(1)] k1(3) have "heap_index (O' ! c) = of_nat k" by simp
        with c dD [OF k16] 3 k show ?thesis
          by (simp add: sel(2,3) lO')
      qed
    qed
    show "unat (heap_index (objs s4 ! c)) < unat (alarm_heap_count s4) \<and>
           alarm_heap_data s4 ! unat (heap_index (objs s4 ! c)) = Ptr c"
      if "c < length (objs s4)" "heap_index (objs s4 ! c) \<noteq> - 1" for c
    proof -
      from that(1) have cl: "c < length ?O" by (simp add: sel lO')
      show ?thesis
      proof (cases "c = a")
        case True
        have "idx \<le> 16" "idx < 16" using idx n15 by simp_all
        then have "unat (heap_index (O' ! a)) = idx" "D' ! idx = Ptr a"
          using dD [of idx] by (simp_all add: Oa unat_of_nat_small)
        with True idx show ?thesis by (simp add: sel(2,3) un)
      next
        case ca: False
        show ?thesis
        proof (cases "\<exists>k. idx \<le> k \<and> k < n \<and> ?D ! k = Ptr c")
          case True
          then obtain k where k: "idx \<le> k" "k < n" "?D ! k = Ptr c" by blast
          from dO [OF this] have hi: "heap_index (O' ! c) = of_nat (Suc k)" by simp
          have k1: "Suc k < 16" "Suc k \<le> 16" "\<not> Suc k < idx" "Suc k \<noteq> idx" "Suc k \<le> n"
            using k n15 by simp_all
          have "unat (heap_index (O' ! c)) = Suc k"
            using k1(2) by (simp only: hi unat_of_nat_small)
          moreover have "D' ! Suc k = Ptr c"
            using dD [OF k1(1)] k1 k(3) by simp
          ultimately show ?thesis using k(2) by (simp add: sel(2,3) un)
        next
          case False
          with fO [OF cl ca] have same: "O' ! c = ?O ! c" by blast
          with that(2) have "heap_index (?O ! c) \<noteq> - 1" by (simp add: sel)
          from bk [OF cl this] have b: "unat (heap_index (?O ! c)) < n"
            "?D ! unat (heap_index (?O ! c)) = Ptr c" by simp_all
          define k where "k = unat (heap_index (?O ! c))"
          have kn: "k < n" and kc: "?D ! k = Ptr c" using b by (simp_all add: k_def)
          have "\<not> idx \<le> k" using False kn kc by blast
          then have ki: "k < idx" by simp
          then have "k < 16" "k < Suc n" using idx n15 by simp_all
          with dD [of k] ki kc same show ?thesis
            by (simp add: sel(2,3) un k_def)
        qed
      qed
    qed
  qed
  have lP: "length (pending s) = n" using lD n16 by (simp add: pending_def n_def)
  have nP: "pending s ! j = ?D ! j" if "j < n" for j using that by (simp add: pending_def n_def)
  have lP': "length (pending s4) = Suc n" using lD' n15 by (simp add: pending_def un sel(2))
  have nP': "pending s4 ! j = D' ! j" if "j < Suc n" for j using that by (simp add: pending_def un sel(2))
  have pend: "pending s4 = take idx (pending s) @ Ptr a # drop idx (pending s)"
  proof (rule nth_equalityI)
    show "length (pending s4) = length (take idx (pending s) @ Ptr a # drop idx (pending s))"
      using idx by (simp add: lP lP')
    show "pending s4 ! k = (take idx (pending s) @ Ptr a # drop idx (pending s)) ! k" if "k < length (pending s4)" for k
    proof -
      from that have k: "k < Suc n" by (simp add: lP')
      then have k16: "k < 16" using n15 by simp
      consider "k < idx" | "k = idx" | "idx < k" by linarith
      then show ?thesis
      proof cases
        case 1
        then have "(take idx (pending s) @ Ptr a # drop idx (pending s)) ! k = pending s ! k"
          using idx by (simp add: nth_append lP)
        also have "\<dots> = ?D ! k" using 1 idx by (simp add: nP)
        finally show ?thesis using dD [OF k16] 1 by (simp add: nP' [OF k])
      next
        case 2
        then have "(take idx (pending s) @ Ptr a # drop idx (pending s)) ! k = Ptr a"
          using idx by (simp add: nth_append lP)
        then show ?thesis using dD [OF k16] 2 nP' [OF k] by simp
      next
        case 3
        then have e: "k - idx = Suc (k - idx - 1)" "idx + (k - idx - 1) = k - 1" by simp_all
        from 3 have "(take idx (pending s) @ Ptr a # drop idx (pending s)) ! k
            = (Ptr a # drop idx (pending s)) ! (k - idx)"
          using idx by (simp add: nth_append lP)
        also have "\<dots> = drop idx (pending s) ! (k - idx - 1)" by (subst e(1)) simp
        also have "\<dots> = pending s ! (k - 1)" using k 3 e(2) by (simp add: lP)
        also have "\<dots> = ?D ! (k - 1)" using k 3 by (simp add: nP)
        finally show ?thesis using dD [OF k16] 3 k by (simp add: nP' [OF k])
      qed
    qed
  qed
  have only_hi: "O' ! b = (?O ! b)\<lparr>heap_index := heap_index (O' ! b)\<rparr>" if "b < length ?O" for b
  proof (cases "b = a")
    case True
    then show ?thesis using Oa by simp
  next
    case False
    show ?thesis
    proof (cases "\<exists>k. idx \<le> k \<and> k < n \<and> ?D ! k = Ptr b")
      case True
      then obtain k where k: "idx \<le> k" "k < n" "?D ! k = Ptr b" by blast
      from dO [OF this] show ?thesis by simp
    next
      case F: False
      with fO [OF that False] show ?thesis by simp
    qed
  qed
  have idle': "O' ! b = ?O ! b" if "b < length ?O" "b \<noteq> a" "heap_index (?O ! b) = - 1" for b
  proof -
    have "?D ! k \<noteq> Ptr b" if "k < n" for k
      using position_inv_not_member [OF inv \<open>heap_index (?O ! b) = - 1\<close>, of k] that by (simp add: n_def)
    with fO [OF that(1,2)] show ?thesis by simp
  qed
  \<comment> \<open>the call of \<open>load_next_alarm\<close>\<close>
  have c4: "alarm_heap_count s4 \<noteq> 0"
    using un by (metis Zero_not_Suc unat_0)
  obtain s' where s': "insert_alarm (Ptr a) s = Some s'"
    "if idx = 0 then load_next_alarm s4 = Some s' else s' = s4"
    using res load_next_alarm_pending [OF pi4 c4] by (cases "idx = 0") (simp_all add: s4_def)
  have fr: "alarm_heap_count s' = alarm_heap_count s4" "alarm_heap_data s' = alarm_heap_data s4"
    "objs s' = objs s4"
    using s'(2) load_next_alarm_frame [of s4 s'] by (cases "idx = 0"; simp)+
  have s4eq: "s4 = s\<lparr>alarm_heap_count := alarm_heap_count s', alarm_heap_data := alarm_heap_data s',
                objs := objs s'\<rparr>"
    by (simp add: fr) (simp add: s4_def)
  show ?thesis
    apply (rule exI [of _ idx], rule exI [of _ s4], rule exI [of _ s'], intro conjI)
    using s'(1) apply assumption
    using s4eq apply assumption
    using s'(2) apply assumption
    using pi4 apply (simp add: heap_cong(1) [OF fr])
    using un apply (simp add: fr n_def)
    using idx apply (simp add: n_def)
    using before apply assumption
    using at apply (simp add: n_def)
    using pend apply (simp add: heap_cong(2) [OF fr])
    using lO' apply (simp add: fr sel)
    using only_hi apply (simp add: fr sel)
    using Oa apply (simp add: fr sel)
    using idle' apply (simp add: fr sel)
    done
qed


lemma sorted_remove_nth:
  fixes xs :: "'a::linorder list"
  assumes "sorted xs"
  shows "sorted (take i xs @ drop (Suc i) xs)"
proof -
  from assms have "sorted (take i xs @ drop i xs)" by simp
  then have "\<forall>x\<in>set (take i xs). \<forall>y\<in>set (drop i xs). x \<le> y"
    by (simp only: sorted_append) blast
  moreover have "set (drop (Suc i) xs) \<subseteq> set (drop i xs)"
    by (rule set_drop_subset_set_drop) simp
  ultimately have "\<forall>x\<in>set (take i xs). \<forall>y\<in>set (drop (Suc i) xs). x \<le> y" by blast
  with assms show ?thesis
    by (simp add: sorted_append sorted_wrt_take sorted_wrt_drop)
qed

lemma sorted_insert_at:
  fixes xs :: "'a::linorder list"
  assumes "sorted xs" "idx \<le> length xs" "\<forall>k<idx. xs ! k \<le> w" "idx < length xs \<longrightarrow> w \<le> xs ! idx"
  shows "sorted (take idx xs @ w # drop idx xs)"
proof -
  have lo: "x \<le> w" if "x \<in> set (take idx xs)" for x
  proof -
    from that obtain k where "k < length (take idx xs)" "take idx xs ! k = x"
      by (auto simp: in_set_conv_nth)
    then have "k < idx" "x = xs ! k" by simp_all
    with assms(3) show ?thesis by simp
  qed
  have hi: "w \<le> y" if "y \<in> set (drop idx xs)" for y
  proof -
    from that obtain j where j: "j < length (drop idx xs)" "drop idx xs ! j = y"
      by (auto simp: in_set_conv_nth)
    then have l: "idx + j < length xs" and y: "y = xs ! (idx + j)" by simp_all
    then have "idx < length xs" by simp
    with assms(4) have "w \<le> xs ! idx" by simp
    also have "\<dots> \<le> xs ! (idx + j)"
      using assms(1) l by (simp add: sorted_nth_mono)
    finally show ?thesis by (simp add: y)
  qed
  have "x \<le> y" if "x \<in> set (take idx xs)" "y \<in> set (drop idx xs)" for x y
    using lo [OF that(1)] hi [OF that(2)] by (rule order_trans)
  with lo hi assms(1) show ?thesis
    by (simp add: sorted_append sorted_wrt_take sorted_wrt_drop)
qed

lemma deadline_only_heap_index:
  assumes "length (objs s') = length (objs s)"
    and "\<forall>b<length (objs s). objs s' ! b = (objs s ! b)\<lparr>heap_index := heap_index (objs s' ! b)\<rparr>"
  shows "deadline s' p = deadline s p"
proof (cases p)
  case NULL
  then show ?thesis by (simp add: deadline_def read_alarm_def)
next
  case (Ptr b)
  show ?thesis
  proof (cases "b < length (objs s)")
    case True
    with assms(2) have "objs s' ! b = (objs s ! b)\<lparr>heap_index := heap_index (objs s' ! b)\<rparr>" by simp
    then have "when (objs s' ! b) = when ((objs s ! b)\<lparr>heap_index := heap_index (objs s' ! b)\<rparr>)"
      by simp
    then show ?thesis using True assms(1) Ptr by (simp add: deadline_def read_alarm_def)
  next
    case False
    then show ?thesis using assms(1) Ptr by (simp add: deadline_def read_alarm_def)
  qed
qed

lemma length_deadlines: "length (deadlines s) = length (pending s)"
  by (simp add: deadlines_def)

lemma remove_ordered:
  assumes "ordered s"
    and "pending s' = take i (pending s) @ drop (Suc i) (pending s)"
    and "length (objs s') = length (objs s)"
    and "\<forall>b<length (objs s). objs s' ! b = (objs s ! b)\<lparr>heap_index := heap_index (objs s' ! b)\<rparr>"
  shows "ordered s'" "deadlines s' = take i (deadlines s) @ drop (Suc i) (deadlines s)"
proof -
  have "deadline s' = deadline s"
    using deadline_only_heap_index [OF assms(3,4)] by (simp add: fun_eq_iff)
  then show d: "deadlines s' = take i (deadlines s) @ drop (Suc i) (deadlines s)"
    by (simp add: deadlines_def assms(2) take_map drop_map)
  from assms(1) show "ordered s'"
    unfolding ordered_def d by (rule sorted_remove_nth)
qed

lemma insert_ordered:
  assumes "ordered s" and "position_inv s" and "a < length (objs s)"
    and "idx \<le> unat (alarm_heap_count s)"
    and "\<forall>k<idx. deadline s (alarm_heap_data s ! k) < when (objs s ! a)"
    and "idx < unat (alarm_heap_count s) \<longrightarrow> when (objs s ! a) \<le> deadline s (alarm_heap_data s ! idx)"
    and "pending s' = take idx (pending s) @ Ptr a # drop idx (pending s)"
    and "length (objs s') = length (objs s)"
    and "\<forall>b<length (objs s). objs s' ! b = (objs s ! b)\<lparr>heap_index := heap_index (objs s' ! b)\<rparr>"
  shows "ordered s'"
    "deadlines s' = take idx (deadlines s) @ when (objs s ! a) # drop idx (deadlines s)"
proof -
  have e: "deadline s' = deadline s"
    using deadline_only_heap_index [OF assms(8,9)] by (simp add: fun_eq_iff)
  have w: "deadline s (Ptr a) = when (objs s ! a)"
    using assms(3) by (simp add: deadline_Ptr)
  show d: "deadlines s' = take idx (deadlines s) @ when (objs s ! a) # drop idx (deadlines s)"
    by (simp add: deadlines_def assms(7) take_map drop_map e w)
  have l: "length (deadlines s) = unat (alarm_heap_count s)"
    using position_invD(1,2) [OF assms(2)] by (simp add: deadlines_def pending_def)
  have nth: "deadlines s ! k = deadline s (alarm_heap_data s ! k)" if "k < unat (alarm_heap_count s)" for k
    using that position_invD(1,2) [OF assms(2)] by (simp add: deadlines_def pending_def)
  have 1: "idx \<le> length (deadlines s)" using assms(4) by (simp add: l)
  have 2: "\<forall>k<idx. deadlines s ! k \<le> when (objs s ! a)"
  proof (intro allI impI)
    fix k assume k: "k < idx"
    with assms(4) have "k < unat (alarm_heap_count s)" by simp
    from nth [OF this] assms(5) k show "deadlines s ! k \<le> when (objs s ! a)"
      by (simp add: less_imp_le)
  qed
  have 3: "idx < length (deadlines s) \<longrightarrow> when (objs s ! a) \<le> deadlines s ! idx"
    using assms(6) nth [of idx] by (simp add: l)
  from assms(1) show "ordered s'"
    unfolding ordered_def d using 1 2 3 by (rule sorted_insert_at)
qed


lemma write_alarm_Ptr:
  "b < length (objs s) \<Longrightarrow> write_alarm (Ptr b) v s = Some (s\<lparr>objs := (objs s)[b := v]\<rparr>)"
  by (simp add: write_alarm_def)

lemma set_alarm_when_spec:
  assumes "a < length (objs s)"
  shows "set_alarm_when (Ptr a) delta s =
     Some ((reg_write Update s)\<lparr>objs := (objs s)[a := (objs s ! a)\<lparr>when := hw_counter s + delta\<rparr>]\<rparr>)"
proof -
  have c: "hw_cnt_high (reg_write Update s) = ucast (drop_bit 32 (hw_counter s))"
    "hw_cnt_low (reg_write Update s) = ucast (hw_counter s)"
    by (simp_all add: reg_write_def)
  show ?thesis
    using assms
    by (simp add: set_alarm_when_def Let_def read_alarm_Ptr write_alarm_Ptr c cat_halves)
qed

lemma position_inv_transfer:
  assumes inv: "position_inv s"
    and "alarm_heap_count s' = alarm_heap_count s" "alarm_heap_data s' = alarm_heap_data s"
    and len: "length (objs s') = length (objs s)"
    and hi: "\<forall>b<length (objs s). heap_index (objs s' ! b) = heap_index (objs s ! b)"
  shows "position_inv s'"
proof (rule position_invI)
  show "length (alarm_heap_data s') = 16" "unat (alarm_heap_count s') \<le> 16"
    using position_invD(1,2) [OF inv] assms(2,3) by simp_all
  show "\<exists>a. alarm_heap_data s' ! i = Ptr a \<and> a < length (objs s') \<and> heap_index (objs s' ! a) = of_nat i"
    if "i < unat (alarm_heap_count s')" for i
    using position_invD(3) [OF inv, of i] that assms(2,3) len hi by auto
  show "unat (heap_index (objs s' ! a)) < unat (alarm_heap_count s') \<and>
           alarm_heap_data s' ! unat (heap_index (objs s' ! a)) = Ptr a"
    if "a < length (objs s')" "heap_index (objs s' ! a) \<noteq> - 1" for a
    using position_invD(4) [OF inv, of a] that assms(2,3) len hi by auto
qed

lemma deadlines_transfer:
  assumes inv: "position_inv s"
    and "alarm_heap_count s' = alarm_heap_count s" "alarm_heap_data s' = alarm_heap_data s"
    and len: "length (objs s') = length (objs s)"
    and w: "\<forall>b<length (objs s). heap_index (objs s ! b) \<noteq> - 1 \<longrightarrow> when (objs s' ! b) = when (objs s ! b)"
  shows "pending s' = pending s" "deadlines s' = deadlines s"
proof -
  show p: "pending s' = pending s" using assms(2,3) by (simp add: pending_def)
  have "deadline s' p = deadline s p" if "p \<in> set (pending s)" for p
  proof -
    from that obtain k where k: "k < unat (alarm_heap_count s)" "p = alarm_heap_data s ! k"
      using position_invD(1,2) [OF inv] by (auto simp: pending_def in_set_conv_nth)
    from position_invD(3) [OF inv k(1)] obtain b where
      b: "alarm_heap_data s ! k = Ptr b" "b < length (objs s)" "heap_index (objs s ! b) = of_nat k"
      by blast
    have "k \<le> 16" using k(1) position_invD(2) [OF inv] by simp
    then have "heap_index (objs s ! b) \<noteq> - 1" by (simp add: b(3) of_nat_neq_minus1)
    with w b(2) have "when (objs s' ! b) = when (objs s ! b)" by simp
    then show ?thesis using b(1,2) k(2) len by (simp add: deadline_def read_alarm_def)
  qed
  then show "deadlines s' = deadlines s" by (simp add: deadlines_def p)
qed

lemma heap_inv_transfer:
  assumes "heap_inv s"
    and "alarm_heap_count s' = alarm_heap_count s" "alarm_heap_data s' = alarm_heap_data s"
    and "length (objs s') = length (objs s)"
    and "\<forall>b<length (objs s). heap_index (objs s' ! b) = heap_index (objs s ! b)"
    and "\<forall>b<length (objs s). heap_index (objs s ! b) \<noteq> - 1 \<longrightarrow> when (objs s' ! b) = when (objs s ! b)"
  shows "heap_inv s'"
proof -
  from assms(1) have inv: "position_inv s" and ord: "ordered s" by (simp_all add: heap_inv_def)
  have "position_inv s'" using inv assms(2-5) by (rule position_inv_transfer)
  moreover have "ordered s'"
    using ord deadlines_transfer(2) [OF inv assms(2,3,4,6)] by (simp add: ordered_def)
  ultimately show ?thesis by (simp add: heap_inv_def)
qed

lemma heap_index_in_range:
  assumes "position_inv s" "a < length (objs s)" "heap_index (objs s ! a) \<noteq> - 1"
  shows "heap_index (objs s ! a) = of_nat (unat (heap_index (objs s ! a)))"
    "unat (heap_index (objs s ! a)) < unat (alarm_heap_count s)"
    "alarm_heap_data s ! unat (heap_index (objs s ! a)) = Ptr a"
  using position_invD(4) [OF assms] by simp_all

lemma remove_heap_inv:
  assumes "heap_inv s" "i < unat (alarm_heap_count s)"
  shows "\<exists>a s'. alarm_heap_data s ! i = Ptr a \<and> a < length (objs s)
     \<and> remove_alarm (of_nat i) s = Some s'
     \<and> heap_inv s'
     \<and> unat (alarm_heap_count s') = unat (alarm_heap_count s) - 1
     \<and> pending s' = take i (pending s) @ drop (Suc i) (pending s)
     \<and> deadlines s' = take i (deadlines s) @ drop (Suc i) (deadlines s)
     \<and> length (objs s') = length (objs s)
     \<and> (\<forall>b<length (objs s). objs s' ! b = (objs s ! b)\<lparr>heap_index := heap_index (objs s' ! b)\<rparr>)
     \<and> heap_index (objs s' ! a) = - 1
     \<and> (\<forall>b<length (objs s). heap_index (objs s ! b) = - 1 \<longrightarrow> objs s' ! b = objs s ! b)
     \<and> s' = s\<lparr>alarm_heap_count := alarm_heap_count s', alarm_heap_data := alarm_heap_data s',
                objs := objs s'\<rparr>"
proof -
  from assms(1) have inv: "position_inv s" and ord: "ordered s" by (simp_all add: heap_inv_def)
  from remove_effect [OF inv assms(2)] obtain a s' where
    r: "alarm_heap_data s ! i = Ptr a" "a < length (objs s)"
      "remove_alarm (of_nat i) s = Some s'" "position_inv s'"
      "unat (alarm_heap_count s') = unat (alarm_heap_count s) - 1"
      "pending s' = take i (pending s) @ drop (Suc i) (pending s)"
      "length (objs s') = length (objs s)"
      "\<forall>b<length (objs s). objs s' ! b = (objs s ! b)\<lparr>heap_index := heap_index (objs s' ! b)\<rparr>"
      "heap_index (objs s' ! a) = - 1"
      "\<forall>b<length (objs s). heap_index (objs s ! b) = - 1 \<longrightarrow> objs s' ! b = objs s ! b"
      "s' = s\<lparr>alarm_heap_count := alarm_heap_count s', alarm_heap_data := alarm_heap_data s',
                objs := objs s'\<rparr>"
    by blast
  note o = remove_ordered [OF ord r(6,7,8)]
  from r(4) o(1) have "heap_inv s'" by (simp add: heap_inv_def)
  with r o(2) show ?thesis by blast
qed

lemma insert_heap_inv:
  assumes "heap_inv s" and a: "a < length (objs s)"
    and idle: "heap_index (objs s ! a) = - 1" and room: "unat (alarm_heap_count s) < 16"
  shows "\<exists>idx s4 s'. insert_alarm (Ptr a) s = Some s'
     \<and> s4 = s\<lparr>alarm_heap_count := alarm_heap_count s', alarm_heap_data := alarm_heap_data s',
                objs := objs s'\<rparr>
     \<and> (if idx = 0 then load_next_alarm s4 = Some s' else s' = s4)
     \<and> heap_inv s'
     \<and> unat (alarm_heap_count s') = Suc (unat (alarm_heap_count s))
     \<and> idx \<le> unat (alarm_heap_count s)
     \<and> (\<forall>k<idx. deadline s (alarm_heap_data s ! k) < when (objs s ! a))
     \<and> (idx < unat (alarm_heap_count s) \<longrightarrow> when (objs s ! a) \<le> deadline s (alarm_heap_data s ! idx))
     \<and> pending s' = take idx (pending s) @ Ptr a # drop idx (pending s)
     \<and> deadlines s' = take idx (deadlines s) @ when (objs s ! a) # drop idx (deadlines s)
     \<and> length (objs s') = length (objs s)
     \<and> (\<forall>b<length (objs s). objs s' ! b = (objs s ! b)\<lparr>heap_index := heap_index (objs s' ! b)\<rparr>)
     \<and> heap_index (objs s' ! a) = of_nat idx
     \<and> (\<forall>b<length (objs s). b \<noteq> a \<longrightarrow> heap_index (objs s ! b) = - 1 \<longrightarrow> objs s' ! b = objs s ! b)"
proof -
  from assms(1) have inv: "position_inv s" and ord: "ordered s" by (simp_all add: heap_inv_def)
  from insert_effect [OF inv a idle room] obtain idx s4 s' where
    r: "insert_alarm (Ptr a) s = Some s'"
      "s4 = s\<lparr>alarm_heap_count := alarm_heap_count s', alarm_heap_data := alarm_heap_data s',
                objs := objs s'\<rparr>"
      "if idx = 0 then load_next_alarm s4 = Some s' else s' = s4"
      "position_inv s'"
      "unat (alarm_heap_count s') = Suc (unat (alarm_heap_count s))"
      "idx \<le> unat (alarm_heap_count s)"
      "\<forall>k<idx. deadline s (alarm_heap_data s ! k) < when (objs s ! a)"
      "idx < unat (alarm_heap_count s) \<longrightarrow> when (objs s ! a) \<le> deadline s (alarm_heap_data s ! idx)"
      "pending s' = take idx (pending s) @ Ptr a # drop idx (pending s)"
      "length (objs s') = length (objs s)"
      "\<forall>b<length (objs s). objs s' ! b = (objs s ! b)\<lparr>heap_index := heap_index (objs s' ! b)\<rparr>"
      "heap_index (objs s' ! a) = of_nat idx"
      "\<forall>b<length (objs s). b \<noteq> a \<longrightarrow> heap_index (objs s ! b) = - 1 \<longrightarrow> objs s' ! b = objs s ! b"
    by blast
  note o = insert_ordered [OF ord inv a r(6,7,8,9,10,11)]
  from r(4) o(1) have "heap_inv s'" by (simp add: heap_inv_def)
  with r o(2) show ?thesis by blast
qed


lemma alarm_delete_idle:
  "a < length (objs s) \<Longrightarrow> heap_index (objs s ! a) = - 1 \<Longrightarrow> alarm_delete a s = Some s"
  by (simp add: alarm_delete_def read_alarm_Ptr)

lemma remove_pending_alarm:
  assumes "heap_inv s" "a < length (objs s)" "heap_index (objs s ! a) \<noteq> - 1"
  shows "\<exists>s'. remove_alarm (heap_index (objs s ! a)) s = Some s'
     \<and> heap_inv s'
     \<and> unat (alarm_heap_count s') = unat (alarm_heap_count s) - 1
     \<and> pending s' = take (unat (heap_index (objs s ! a))) (pending s)
                        @ drop (Suc (unat (heap_index (objs s ! a)))) (pending s)
     \<and> length (objs s') = length (objs s)
     \<and> (\<forall>b<length (objs s). objs s' ! b = (objs s ! b)\<lparr>heap_index := heap_index (objs s' ! b)\<rparr>)
     \<and> heap_index (objs s' ! a) = - 1
     \<and> (\<forall>b<length (objs s). heap_index (objs s ! b) = - 1 \<longrightarrow> objs s' ! b = objs s ! b)
     \<and> s' = s\<lparr>alarm_heap_count := alarm_heap_count s', alarm_heap_data := alarm_heap_data s',
                objs := objs s'\<rparr>"
proof -
  from assms(1) have inv: "position_inv s" by (simp add: heap_inv_def)
  note h = heap_index_in_range [OF inv assms(2,3)]
  have e: "(of_nat (unat (heap_index (objs s ! a))) :: 32 word) = heap_index (objs s ! a)" by simp
  from remove_heap_inv [OF assms(1) h(2)] h(3) obtain s' where
    "remove_alarm (of_nat (unat (heap_index (objs s ! a)))) s = Some s'"
      "heap_inv s'"
      "unat (alarm_heap_count s') = unat (alarm_heap_count s) - 1"
      "pending s' = take (unat (heap_index (objs s ! a))) (pending s)
                        @ drop (Suc (unat (heap_index (objs s ! a)))) (pending s)"
      "length (objs s') = length (objs s)"
      "\<forall>b<length (objs s). objs s' ! b = (objs s ! b)\<lparr>heap_index := heap_index (objs s' ! b)\<rparr>"
      "heap_index (objs s' ! a) = - 1"
      "\<forall>b<length (objs s). heap_index (objs s ! b) = - 1 \<longrightarrow> objs s' ! b = objs s ! b"
      "s' = s\<lparr>alarm_heap_count := alarm_heap_count s', alarm_heap_data := alarm_heap_data s',
                objs := objs s'\<rparr>"
    by auto
  then show ?thesis unfolding e by blast
qed

lemma alarm_delete_pending:
  assumes "heap_inv s" "a < length (objs s)" "heap_index (objs s ! a) \<noteq> - 1"
  shows "alarm_delete a s = remove_alarm (heap_index (objs s ! a)) s"
  using assms(2,3) by (simp add: alarm_delete_def read_alarm_Ptr)

lemma alarm_delete_heap_inv:
  assumes "heap_inv s" "a < length (objs s)"
  shows "\<exists>s'. alarm_delete a s = Some s' \<and> heap_inv s' \<and> length (objs s') = length (objs s)
     \<and> heap_index (objs s' ! a) = - 1"
proof (cases "heap_index (objs s ! a) = - 1")
  case True
  with assms show ?thesis by (simp add: alarm_delete_idle)
next
  case False
  from remove_pending_alarm [OF assms False] show ?thesis
    by (auto simp: alarm_delete_pending [OF assms False])
qed

text \<open>The state of \<open>alarm_set_callback_helper\<close> when it enters the atomic section.\<close>

lemma helper_prefix:
  assumes "self < length (objs s)"
  shows "alarm_set_callback_helper self h arg s =
     (let s3 = s\<lparr>objs := (objs s)[self := (objs s ! self)
                      \<lparr>handler := h, handler_arg := (if arg = mp_const_none then mp_obj self else arg)\<rparr>],
                  irq_handlers := irq_handlers s @ [h]\<rparr>;
          a3 = objs s3 ! self
      in (if h = mp_const_none then
            (if heap_index a3 \<noteq> - 1 then remove_alarm (heap_index a3) s3 \<bind> (\<lambda>s'. Some (False, s'))
             else Some (False, s3))
          else
            (if heap_index a3 = - 1 then
               (if alarm_heap_count s3 = ALARM_HEAP_MAX_ELEMENTS then Some (True, s3)
                else set_alarm_when (Ptr self) (interval a3) s3 \<bind>
                       (\<lambda>s'. insert_alarm (Ptr self) s' \<bind> (\<lambda>s''. Some (False, s'')))) 
             else Some (False, s3)))
         \<bind> (\<lambda>(error, s4). Some (if error
           then Raise (MemoryError
                  ''Alarm cannot be scheduled currently, maximum 16 alarms can be ran in parallel !'')
           else Return (), s4)))"
  using assms
  by (simp add: alarm_set_callback_helper_def Let_def read_alarm_Ptr write_alarm_Ptr
        mp_irq_handler_add_def)


lemma activate_effect:
  assumes hi: "heap_inv s" and a: "a < length (objs s)"
    and idle: "heap_index (objs s ! a) = - 1" and room: "unat (alarm_heap_count s) < 16"
  shows "\<exists>idx s'. (set_alarm_when (Ptr a) delta s \<bind> insert_alarm (Ptr a)) = Some s'
     \<and> heap_inv s'
     \<and> unat (alarm_heap_count s') = Suc (unat (alarm_heap_count s))
     \<and> idx \<le> unat (alarm_heap_count s)
     \<and> (\<forall>k<idx. deadlines s ! k < hw_counter s + delta)
     \<and> (\<forall>k. idx \<le> k \<and> k < unat (alarm_heap_count s) \<longrightarrow> hw_counter s + delta \<le> deadlines s ! k)
     \<and> pending s' = take idx (pending s) @ Ptr a # drop idx (pending s)
     \<and> deadlines s' = take idx (deadlines s) @ (hw_counter s + delta) # drop idx (deadlines s)
     \<and> length (objs s') = length (objs s)
     \<and> objs s' ! a = (objs s ! a)\<lparr>when := hw_counter s + delta, heap_index := of_nat idx\<rparr>
     \<and> (\<forall>b<length (objs s). b \<noteq> a \<longrightarrow>
           objs s' ! b = (objs s ! b)\<lparr>heap_index := heap_index (objs s' ! b)\<rparr>)
     \<and> (\<forall>b<length (objs s). b \<noteq> a \<longrightarrow> heap_index (objs s ! b) = - 1 \<longrightarrow> objs s' ! b = objs s ! b)
     \<and> irq_queue s' = irq_queue s \<and> irq_handlers s' = irq_handlers s
     \<and> hw_counter s' = hw_counter s"
proof -
  let ?w = "hw_counter s + delta"
  define s1 where "s1 = (reg_write Update s)\<lparr>objs := (objs s)[a := (objs s ! a)\<lparr>when := ?w\<rparr>]\<rparr>"
  have saw: "set_alarm_when (Ptr a) delta s = Some s1"
    unfolding s1_def using a by (rule set_alarm_when_spec)
  have sel: "alarm_heap_count s1 = alarm_heap_count s" "alarm_heap_data s1 = alarm_heap_data s"
    "objs s1 = (objs s)[a := (objs s ! a)\<lparr>when := ?w\<rparr>]"
    "irq_queue s1 = irq_queue s" "irq_handlers s1 = irq_handlers s" "hw_counter s1 = hw_counter s"
    by (simp_all add: s1_def)
  have len: "length (objs s1) = length (objs s)" by (simp add: sel)
  have h1: "\<forall>b<length (objs s). heap_index (objs s1 ! b) = heap_index (objs s ! b)"
    using a by (auto simp: sel nth_list_update)
  have w1: "\<forall>b<length (objs s). heap_index (objs s ! b) \<noteq> - 1 \<longrightarrow> when (objs s1 ! b) = when (objs s ! b)"
    using idle a by (auto simp: sel nth_list_update)
  have hi1: "heap_inv s1"
    using hi sel(1,2) len h1 w1 by (rule heap_inv_transfer)
  from hi have inv: "position_inv s" and ord: "ordered s" by (simp_all add: heap_inv_def)
  note dt = deadlines_transfer [OF inv sel(1,2) len w1]
  have a1: "a < length (objs s1)" "heap_index (objs s1 ! a) = - 1" "unat (alarm_heap_count s1) < 16"
    "when (objs s1 ! a) = ?w"
    using a idle room by (simp_all add: sel)
  from insert_heap_inv [OF hi1 a1(1,2,3)] obtain idx s4 s' where
    r: "insert_alarm (Ptr a) s1 = Some s'"
      "s4 = s1\<lparr>alarm_heap_count := alarm_heap_count s', alarm_heap_data := alarm_heap_data s',
                objs := objs s'\<rparr>"
      "if idx = 0 then load_next_alarm s4 = Some s' else s' = s4"
      "heap_inv s'"
      "unat (alarm_heap_count s') = Suc (unat (alarm_heap_count s1))"
      "idx \<le> unat (alarm_heap_count s1)"
      "\<forall>k<idx. deadline s1 (alarm_heap_data s1 ! k) < when (objs s1 ! a)"
      "idx < unat (alarm_heap_count s1) \<longrightarrow> when (objs s1 ! a) \<le> deadline s1 (alarm_heap_data s1 ! idx)"
      "pending s' = take idx (pending s1) @ Ptr a # drop idx (pending s1)"
      "deadlines s' = take idx (deadlines s1) @ when (objs s1 ! a) # drop idx (deadlines s1)"
      "length (objs s') = length (objs s1)"
      "\<forall>b<length (objs s1). objs s' ! b = (objs s1 ! b)\<lparr>heap_index := heap_index (objs s' ! b)\<rparr>"
      "heap_index (objs s' ! a) = of_nat idx"
      "\<forall>b<length (objs s1). b \<noteq> a \<longrightarrow> heap_index (objs s1 ! b) = - 1 \<longrightarrow> objs s' ! b = objs s1 ! b"
    by blast
  define n where "n = unat (alarm_heap_count s)"
  have lD: "length (alarm_heap_data s) = 16" and n16: "n \<le> 16"
    using position_invD(1,2) [OF inv] by (simp_all add: n_def)
  have ld: "length (deadlines s) = n" using lD n16 by (simp add: deadlines_def pending_def n_def)
  have nth1: "deadlines s ! k = deadline s1 (alarm_heap_data s1 ! k)" if "k < n" for k
  proof -
    have "deadlines s1 ! k = deadline s1 (alarm_heap_data s1 ! k)"
      using that lD n16 by (simp add: deadlines_def pending_def sel(1,2) n_def)
    then show ?thesis by (simp add: dt(2))
  qed
  have idx: "idx \<le> n" using r(6) by (simp add: sel n_def)
  have r7: "\<forall>k<idx. deadline s1 (alarm_heap_data s1 ! k) < ?w"
    using r(7) by (simp only: a1(4))
  have r8: "idx < n \<longrightarrow> ?w \<le> deadline s1 (alarm_heap_data s1 ! idx)"
    using r(8) by (simp only: a1(4) sel(1) n_def)
  have c_before: "\<forall>k<idx. deadlines s ! k < ?w"
  proof (intro allI impI)
    fix k assume "k < idx"
    with idx r7 nth1 [of k] show "deadlines s ! k < ?w" by simp
  qed
  have c_after: "\<forall>k. idx \<le> k \<and> k < n \<longrightarrow> ?w \<le> deadlines s ! k"
  proof (intro allI impI)
    fix k assume k: "idx \<le> k \<and> k < n"
    then have "idx < n" by simp
    with r8 nth1 [of idx] have "?w \<le> deadlines s ! idx" by simp
    also have "\<dots> \<le> deadlines s ! k"
      using ord k by (simp add: ordered_def sorted_nth_mono ld)
    finally show "?w \<le> deadlines s ! k" .
  qed
  have fr: "irq_queue s' = irq_queue s \<and> irq_handlers s' = irq_handlers s \<and> hw_counter s' = hw_counter s"
  proof (cases "idx = 0")
    case True
    with r(3) have "load_next_alarm s4 = Some s'" by simp
    from load_next_alarm_frame(4,5,6) [OF this] show ?thesis by (simp add: r(2) sel)
  next
    case False
    with r(3) have "s' = s4" by simp
    then have "irq_queue s' = irq_queue s4" "irq_handlers s' = irq_handlers s4" "hw_counter s' = hw_counter s4"
      by simp_all
    then show ?thesis by (simp add: r(2) sel)
  qed
  have oa: "objs s' ! a = (objs s ! a)\<lparr>when := ?w, heap_index := of_nat idx\<rparr>"
  proof -
    from r(12) a1(1) have "objs s' ! a = (objs s1 ! a)\<lparr>heap_index := heap_index (objs s' ! a)\<rparr>" by simp
    then show ?thesis using a by (simp add: r(13) sel)
  qed
  have ob: "\<forall>b<length (objs s). b \<noteq> a \<longrightarrow>
           objs s' ! b = (objs s ! b)\<lparr>heap_index := heap_index (objs s' ! b)\<rparr>"
    using r(12) by (auto simp: sel)
  have oc: "\<forall>b<length (objs s). b \<noteq> a \<longrightarrow> heap_index (objs s ! b) = - 1 \<longrightarrow> objs s' ! b = objs s ! b"
    using r(14) by (auto simp: sel)
  show ?thesis
    apply (rule exI [of _ idx], rule exI [of _ s'], intro conjI)
    using saw r(1) apply simp
    using r(4) apply assumption
    using r(5) apply (simp add: sel)
    using idx apply (simp add: n_def)
    using c_before apply assumption
    using c_after apply (simp add: n_def)
    using r(9) apply (simp add: dt)
    using r(10) apply (simp add: dt a1(4))
    using r(11) apply (simp add: sel)
    using oa apply assumption
    using ob apply assumption
    using oc apply assumption
    using fr apply simp
    using fr apply simp
    using fr apply simp
    done
qed


lemma store_callback_sel [simp]:
  "alarm_heap_count (store_callback self h arg s) = alarm_heap_count s"
  "alarm_heap_data (store_callback self h arg s) = alarm_heap_data s"
  "length (objs (store_callback self h arg s)) = length (objs s)"
  "irq_queue (store_callback self h arg s) = irq_queue s"
  "hw_counter (store_callback self h arg s) = hw_counter s"
  "hw_writes (store_callback self h arg s) = hw_writes s"
  "hw_alarm_en (store_callback self h arg s) = hw_alarm_en s"
  "hw_alarm_high (store_callback self h arg s) = hw_alarm_high s"
  "hw_alarm_low (store_callback self h arg s) = hw_alarm_low s"
  by (simp_all add: store_callback_def)

lemma store_callback_obj:
  assumes "b < length (objs s)"
  shows "heap_index (objs (store_callback self h arg s) ! b) = heap_index (objs s ! b)"
    "when (objs (store_callback self h arg s) ! b) = when (objs s ! b)"
    "interval (objs (store_callback self h arg s) ! b) = interval (objs s ! b)"
    "periodic (objs (store_callback self h arg s) ! b) = periodic (objs s ! b)"
  using assms by (cases "self = b"; simp add: store_callback_def)+

lemma store_callback_heap_inv:
  assumes "heap_inv s"
  shows "heap_inv (store_callback self h arg s)"
  using assms by (rule heap_inv_transfer) (simp_all add: store_callback_obj)

lemma store_callback_views:
  assumes "heap_inv s"
  shows "pending (store_callback self h arg s) = pending s"
    "deadlines (store_callback self h arg s) = deadlines s"
proof -
  from assms have inv: "position_inv s" by (simp add: heap_inv_def)
  show "pending (store_callback self h arg s) = pending s"
    "deadlines (store_callback self h arg s) = deadlines s"
    by (rule deadlines_transfer [OF inv]; simp add: store_callback_obj)+
qed

lemma helper_cases:
  assumes "self < length (objs s)"
  shows "alarm_set_callback_helper self h arg s =
     (let s3 = store_callback self h arg s; a3 = objs s3 ! self
      in (if h = mp_const_none then
            (if heap_index a3 \<noteq> - 1 then remove_alarm (heap_index a3) s3 \<bind> (\<lambda>s'. Some (False, s'))
             else Some (False, s3))
          else
            (if heap_index a3 = - 1 then
               (if alarm_heap_count s3 = ALARM_HEAP_MAX_ELEMENTS then Some (True, s3)
                else set_alarm_when (Ptr self) (interval a3) s3 \<bind>
                       (\<lambda>s'. insert_alarm (Ptr self) s' \<bind> (\<lambda>s''. Some (False, s''))))
             else Some (False, s3)))
         \<bind> (\<lambda>(error, s4). Some (if error
           then Raise (MemoryError
                  ''Alarm cannot be scheduled currently, maximum 16 alarms can be ran in parallel !'')
           else Return (), s4)))"
  unfolding store_callback_def using assms by (rule helper_prefix)

lemma helper_pending:
  assumes "self < length (objs s)" "heap_index (objs s ! self) \<noteq> - 1" "h \<noteq> mp_const_none"
  shows "alarm_set_callback_helper self h arg s = Some (Return (), store_callback self h arg s)"
  using assms by (simp add: helper_cases Let_def store_callback_obj)

lemma helper_idle_none:
  assumes "self < length (objs s)" "heap_index (objs s ! self) = - 1"
  shows "alarm_set_callback_helper self mp_const_none arg s =
         Some (Return (), store_callback self mp_const_none arg s)"
  using assms by (simp add: helper_cases Let_def store_callback_obj)

lemma helper_full:
  assumes "self < length (objs s)" "heap_index (objs s ! self) = - 1" "h \<noteq> mp_const_none"
    and "alarm_heap_count s = ALARM_HEAP_MAX_ELEMENTS"
  shows "alarm_set_callback_helper self h arg s =
         Some (Raise (MemoryError
                  ''Alarm cannot be scheduled currently, maximum 16 alarms can be ran in parallel !''),
               store_callback self h arg s)"
  using assms by (simp add: helper_cases Let_def store_callback_obj)

lemma helper_deactivate:
  assumes "self < length (objs s)" "heap_index (objs s ! self) \<noteq> - 1"
  shows "alarm_set_callback_helper self mp_const_none arg s =
         remove_alarm (heap_index (objs s ! self)) (store_callback self mp_const_none arg s)
           \<bind> (\<lambda>s'. Some (Return (), s'))"
  using assms by (simp add: helper_cases Let_def store_callback_obj)

lemma helper_activate:
  assumes "self < length (objs s)" "heap_index (objs s ! self) = - 1" "h \<noteq> mp_const_none"
    and "alarm_heap_count s \<noteq> ALARM_HEAP_MAX_ELEMENTS"
  shows "alarm_set_callback_helper self h arg s =
         (set_alarm_when (Ptr self) (interval (objs s ! self)) (store_callback self h arg s)
            \<bind> insert_alarm (Ptr self)) \<bind> (\<lambda>s'. Some (Return (), s'))"
  using assms by (simp add: helper_cases Let_def store_callback_obj)

lemma room_iff:
  assumes "position_inv s"
  shows "alarm_heap_count s \<noteq> ALARM_HEAP_MAX_ELEMENTS \<longleftrightarrow> unat (alarm_heap_count s) < 16"
proof -
  have "unat (alarm_heap_count s) \<le> 16" using position_invD(2) [OF assms] .
  moreover have "alarm_heap_count s = 16 \<longleftrightarrow> unat (alarm_heap_count s) = unat (16 :: 32 word)"
    by (rule word_unat_eq_iff)
  moreover have "unat (16 :: 32 word) = 16" by simp
  ultimately show ?thesis by (auto simp: ALARM_HEAP_MAX_ELEMENTS_def)
qed

lemma helper_heap_inv:
  assumes hi: "heap_inv s" and self: "self < length (objs s)"
  shows "\<exists>r s'. alarm_set_callback_helper self h arg s = Some (r, s') \<and> heap_inv s'
     \<and> length (objs s') = length (objs s)"
proof -
  let ?s3 = "store_callback self h arg s"
  have hi3: "heap_inv ?s3" using hi by (rule store_callback_heap_inv)
  then have inv3: "position_inv ?s3" by (simp add: heap_inv_def)
  have self3: "self < length (objs ?s3)" using self by simp
  have idx3: "heap_index (objs ?s3 ! self) = heap_index (objs s ! self)"
    using self by (simp add: store_callback_obj)
  consider (pending) "heap_index (objs s ! self) \<noteq> - 1" "h \<noteq> mp_const_none"
    | (idle_none) "heap_index (objs s ! self) = - 1" "h = mp_const_none"
    | (full) "heap_index (objs s ! self) = - 1" "h \<noteq> mp_const_none"
        "alarm_heap_count s = ALARM_HEAP_MAX_ELEMENTS"
    | (deactivate) "heap_index (objs s ! self) \<noteq> - 1" "h = mp_const_none"
    | (activate) "heap_index (objs s ! self) = - 1" "h \<noteq> mp_const_none"
        "alarm_heap_count s \<noteq> ALARM_HEAP_MAX_ELEMENTS"
    by blast
  then show ?thesis
  proof cases
    case pending
    with hi3 self show ?thesis by (simp add: helper_pending)
  next
    case idle_none
    with hi3 self show ?thesis by (simp add: helper_idle_none)
  next
    case full
    with hi3 self show ?thesis by (simp add: helper_full)
  next
    case deactivate
    from deactivate(1) idx3 have "heap_index (objs ?s3 ! self) \<noteq> - 1" by simp
    from remove_pending_alarm [OF hi3 self3 this] obtain s' where
      "remove_alarm (heap_index (objs s ! self)) ?s3 = Some s'" "heap_inv s'"
      "length (objs s') = length (objs s)"
      by (auto simp: idx3)
    with deactivate self show ?thesis by (simp add: helper_deactivate)
  next
    case activate
    have "alarm_heap_count ?s3 \<noteq> ALARM_HEAP_MAX_ELEMENTS" using activate(3) by simp
    then have room: "unat (alarm_heap_count ?s3) < 16" by (simp only: room_iff [OF inv3])
    from activate(1) idx3 have "heap_index (objs ?s3 ! self) = - 1" by simp
    from activate_effect [OF hi3 self3 this room, of "interval (objs s ! self)"] obtain s' where
      "(set_alarm_when (Ptr self) (interval (objs s ! self)) ?s3 \<bind> insert_alarm (Ptr self)) = Some s'"
      "heap_inv s'" "length (objs s') = length (objs s)"
      by auto
    with activate self show ?thesis by (simp add: helper_activate)
  qed
qed


lemma load_next_alarm_ok:
  assumes "position_inv s"
  shows "\<exists>s'. load_next_alarm s = Some s' \<and> alarm_heap_count s' = alarm_heap_count s
     \<and> alarm_heap_data s' = alarm_heap_data s \<and> objs s' = objs s
     \<and> irq_queue s' = irq_queue s \<and> irq_handlers s' = irq_handlers s
     \<and> hw_counter s' = hw_counter s"
proof -
  have "\<exists>s'. load_next_alarm s = Some s'"
    using load_next_alarm_empty [of s] load_next_alarm_pending [OF assms]
    by (cases "alarm_heap_count s = 0") simp_all
  then obtain s' where s': "load_next_alarm s = Some s'" ..
  from load_next_alarm_frame [OF this] s' show ?thesis by simp
qed

lemma isr_empty:
  "alarm_heap_count s = 0 \<Longrightarrow> timer_alarm_isr s = Some (reg_write Int_clr_t0 s)"
  by (simp add: timer_alarm_isr_def Let_def)

lemma isr_fire:
  assumes hi: "heap_inv s" and ne: "alarm_heap_count s \<noteq> 0"
  shows "\<exists>a s1. alarm_heap_data s ! 0 = Ptr a \<and> a < length (objs s)
     \<and> remove_alarm 0 (reg_write Int_clr_t0 s) = Some s1
     \<and> heap_inv s1 \<and> unat (alarm_heap_count s1) = unat (alarm_heap_count s) - 1
     \<and> pending s1 = tl (pending s) \<and> deadlines s1 = tl (deadlines s)
     \<and> length (objs s1) = length (objs s)
     \<and> objs s1 ! a = (objs s ! a)\<lparr>heap_index := - 1\<rparr>
     \<and> (\<forall>b<length (objs s). objs s1 ! b = (objs s ! b)\<lparr>heap_index := heap_index (objs s1 ! b)\<rparr>)
     \<and> (\<forall>b<length (objs s). heap_index (objs s ! b) = - 1 \<longrightarrow> objs s1 ! b = objs s ! b)
     \<and> irq_queue s1 = irq_queue s \<and> irq_handlers s1 = irq_handlers s
     \<and> hw_counter s1 = hw_counter s
     \<and> timer_alarm_isr s =
          ((if periodic (objs s ! a)
            then set_alarm_when (Ptr a) (interval (objs s ! a)) s1 \<bind> insert_alarm (Ptr a)
            else Some s1) \<bind> load_next_alarm) \<bind> mp_irq_queue_interrupt (Ptr a)"
proof -
  let ?s0 = "reg_write Int_clr_t0 s"
  have fr0: "alarm_heap_count ?s0 = alarm_heap_count s" "alarm_heap_data ?s0 = alarm_heap_data s"
    "objs ?s0 = objs s" by simp_all
  have hi0: "heap_inv ?s0" using hi by (simp add: heap_cong(6) [OF fr0])
  from ne have pos: "0 < unat (alarm_heap_count ?s0)" by (simp add: unat_gt_0)
  from remove_heap_inv [OF hi0 pos] obtain a s1 where
    r: "alarm_heap_data ?s0 ! 0 = Ptr a" "a < length (objs ?s0)"
      "remove_alarm (of_nat 0) ?s0 = Some s1" "heap_inv s1"
      "unat (alarm_heap_count s1) = unat (alarm_heap_count ?s0) - 1"
      "pending s1 = take 0 (pending ?s0) @ drop (Suc 0) (pending ?s0)"
      "deadlines s1 = take 0 (deadlines ?s0) @ drop (Suc 0) (deadlines ?s0)"
      "length (objs s1) = length (objs ?s0)"
      "\<forall>b<length (objs ?s0). objs s1 ! b = (objs ?s0 ! b)\<lparr>heap_index := heap_index (objs s1 ! b)\<rparr>"
      "heap_index (objs s1 ! a) = - 1"
      "\<forall>b<length (objs ?s0). heap_index (objs ?s0 ! b) = - 1 \<longrightarrow> objs s1 ! b = objs ?s0 ! b"
      "s1 = ?s0\<lparr>alarm_heap_count := alarm_heap_count s1, alarm_heap_data := alarm_heap_data s1,
                objs := objs s1\<rparr>"
    by blast
  have a: "alarm_heap_data s ! 0 = Ptr a" "a < length (objs s)" using r(1,2) by simp_all
  have rm: "remove_alarm 0 ?s0 = Some s1" using r(3) by simp
  have oa: "objs s1 ! a = (objs s ! a)\<lparr>heap_index := - 1\<rparr>"
  proof -
    from r(9) a(2) have "objs s1 ! a = (objs s ! a)\<lparr>heap_index := heap_index (objs s1 ! a)\<rparr>" by simp
    then show ?thesis by (simp add: r(10))
  qed
  have fr: "irq_queue s1 = irq_queue s" "irq_handlers s1 = irq_handlers s" "hw_counter s1 = hw_counter s"
  proof -
    have "irq_queue s1 = irq_queue ?s0" "irq_handlers s1 = irq_handlers ?s0" "hw_counter s1 = hw_counter ?s0"
      by (subst r(12), simp)+
    then show "irq_queue s1 = irq_queue s" "irq_handlers s1 = irq_handlers s" "hw_counter s1 = hw_counter s"
      by simp_all
  qed
  have lD: "length (alarm_heap_data s) = 16"
    using hi position_invD(1) by (simp add: heap_inv_def)
  have rs: "read_slot 0 ?s0 = Some (Ptr a)"
    using a(1) lD by (simp add: read_slot_def)
  have ra: "read_alarm (Ptr a) s1 = Some ((objs s ! a)\<lparr>heap_index := - 1\<rparr>)"
    using a(2) r(8) oa by (simp add: read_alarm_def)
  have "0 < alarm_heap_count ?s0" using pos by (simp add: word_less_nat_alt)
  then have isr: "timer_alarm_isr s =
          ((if periodic (objs s ! a)
            then set_alarm_when (Ptr a) (interval (objs s ! a)) s1 \<bind> insert_alarm (Ptr a)
            else Some s1) \<bind> load_next_alarm) \<bind> mp_irq_queue_interrupt (Ptr a)"
    by (simp add: timer_alarm_isr_def Let_def rs rm ra)
  show ?thesis
    apply (rule exI [of _ a], rule exI [of _ s1], intro conjI)
    using a(1) apply assumption
    using a(2) apply assumption
    using rm apply assumption
    using r(4) apply assumption
    using r(5) apply simp
    using r(6) apply (simp add: heap_cong(2) [OF fr0] drop_Suc)
    using r(7) apply (simp add: heap_cong(4) [OF fr0] drop_Suc)
    using r(8) apply simp
    using oa apply assumption
    using r(9) apply simp
    using r(11) apply simp
    using fr(1) apply assumption
    using fr(2) apply assumption
    using fr(3) apply assumption
    using isr apply assumption
    done
qed

lemma isr_heap_inv:
  assumes hi: "heap_inv s"
  shows "\<exists>s'. timer_alarm_isr s = Some s' \<and> heap_inv s' \<and> length (objs s') = length (objs s)"
proof (cases "alarm_heap_count s = 0")
  case True
  have fr0: "alarm_heap_count (reg_write Int_clr_t0 s) = alarm_heap_count s"
    "alarm_heap_data (reg_write Int_clr_t0 s) = alarm_heap_data s"
    "objs (reg_write Int_clr_t0 s) = objs s" by simp_all
  from hi show ?thesis by (simp add: isr_empty [OF True] heap_cong(6) [OF fr0])
next
  case False
  from isr_fire [OF hi False] obtain a s1 where
    r: "a < length (objs s)" "heap_inv s1"
      "unat (alarm_heap_count s1) = unat (alarm_heap_count s) - 1"
      "length (objs s1) = length (objs s)"
      "objs s1 ! a = (objs s ! a)\<lparr>heap_index := - 1\<rparr>"
      "timer_alarm_isr s =
          ((if periodic (objs s ! a)
            then set_alarm_when (Ptr a) (interval (objs s ! a)) s1 \<bind> insert_alarm (Ptr a)
            else Some s1) \<bind> load_next_alarm) \<bind> mp_irq_queue_interrupt (Ptr a)"
    by blast
  have "\<exists>s2. (if periodic (objs s ! a)
            then set_alarm_when (Ptr a) (interval (objs s ! a)) s1 \<bind> insert_alarm (Ptr a)
            else Some s1) = Some s2 \<and> heap_inv s2 \<and> length (objs s2) = length (objs s)"
  proof (cases "periodic (objs s ! a)")
    case True
    have n16: "unat (alarm_heap_count s) \<le> 16"
      using hi position_invD(2) by (simp add: heap_inv_def)
    from False have "0 < unat (alarm_heap_count s)" by (simp add: unat_gt_0)
    with n16 r(3) have room: "unat (alarm_heap_count s1) < 16" by simp
    have a1: "a < length (objs s1)" "heap_index (objs s1 ! a) = - 1"
      using r(1) by (simp_all add: r(4,5))
    from activate_effect [OF r(2) a1 room, of "interval (objs s ! a)"] True r(4)
    show ?thesis by auto
  next
    case False
    with r(2,4) show ?thesis by simp
  qed
  then obtain s2 where s2: "(if periodic (objs s ! a)
            then set_alarm_when (Ptr a) (interval (objs s ! a)) s1 \<bind> insert_alarm (Ptr a)
            else Some s1) = Some s2" "heap_inv s2" "length (objs s2) = length (objs s)"
    by blast
  from s2(2) have "position_inv s2" by (simp add: heap_inv_def)
  from load_next_alarm_ok [OF this] obtain s3 where
    s3: "load_next_alarm s2 = Some s3" "alarm_heap_count s3 = alarm_heap_count s2"
      "alarm_heap_data s3 = alarm_heap_data s2" "objs s3 = objs s2"
    by blast
  let ?s' = "s3\<lparr>irq_queue := irq_queue s3 @ [a]\<rparr>"
  have fr: "alarm_heap_count ?s' = alarm_heap_count s2" "alarm_heap_data ?s' = alarm_heap_data s2"
    "objs ?s' = objs s2" by (simp_all add: s3)
  have "timer_alarm_isr s = Some ?s'"
    by (simp add: r(6) s2(1) s3(1) mp_irq_queue_interrupt_def)
  moreover have "heap_inv ?s'" using s2(2) by (simp add: heap_cong(6) [OF fr])
  moreover have "length (objs ?s') = length (objs s)" using s2(3) by (simp add: s3)
  ultimately show ?thesis by blast
qed

lemma isr_oneshot_idle:
  assumes hi: "heap_inv s" and ne: "alarm_heap_count s \<noteq> 0"
    and a: "alarm_heap_data s ! 0 = Ptr a" and one: "\<not> periodic (objs s ! a)"
  shows "\<exists>s'. timer_alarm_isr s = Some s' \<and> a < length (objs s')
     \<and> objs s' ! a = (objs s ! a)\<lparr>heap_index := - 1\<rparr> \<and> heap_inv s'
     \<and> pending s' = tl (pending s) \<and> irq_queue s' = irq_queue s @ [a]"
proof -
  from isr_fire [OF hi ne] a obtain s1 where
    r: "a < length (objs s)" "heap_inv s1" "length (objs s1) = length (objs s)"
      "objs s1 ! a = (objs s ! a)\<lparr>heap_index := - 1\<rparr>" "pending s1 = tl (pending s)"
      "irq_queue s1 = irq_queue s"
      "timer_alarm_isr s =
          ((if periodic (objs s ! a)
            then set_alarm_when (Ptr a) (interval (objs s ! a)) s1 \<bind> insert_alarm (Ptr a)
            else Some s1) \<bind> load_next_alarm) \<bind> mp_irq_queue_interrupt (Ptr a)"
    by auto
  from r(2) have "position_inv s1" by (simp add: heap_inv_def)
  from load_next_alarm_ok [OF this] obtain s3 where
    s3: "load_next_alarm s1 = Some s3" "alarm_heap_count s3 = alarm_heap_count s1"
      "alarm_heap_data s3 = alarm_heap_data s1" "objs s3 = objs s1" "irq_queue s3 = irq_queue s1"
    by blast
  let ?s' = "s3\<lparr>irq_queue := irq_queue s3 @ [a]\<rparr>"
  have fr: "alarm_heap_count ?s' = alarm_heap_count s1" "alarm_heap_data ?s' = alarm_heap_data s1"
    "objs ?s' = objs s1" by (simp_all add: s3)
  have "timer_alarm_isr s = Some ?s'"
    using one by (simp add: r(7) s3(1) mp_irq_queue_interrupt_def)
  moreover have "heap_inv ?s'" using r(2) by (simp add: heap_cong(6) [OF fr])
  moreover have "pending ?s' = tl (pending s)" using r(5) by (simp add: heap_cong(2) [OF fr])
  ultimately show ?thesis using r(1,3,4,6) by (simp add: s3)
qed

lemma two_pending_inv: "heap_inv two_pending"
  by (simp add: heap_inv_def position_inv_def ordered_def deadlines_def pending_def deadline_def
        read_alarm_def two_pending_def machine_of_def alarm_obj_def ALARM_HEAP_MAX_ELEMENTS_def
        points_back_def position_valid_def lessThan_nat_numeral lessThan_Suc)

lemma one_shot_first_inv: "heap_inv one_shot_first"
  by (simp add: heap_inv_def position_inv_def ordered_def deadlines_def pending_def deadline_def
        read_alarm_def one_shot_first_def machine_of_def alarm_obj_def ALARM_HEAP_MAX_ELEMENTS_def
        points_back_def position_valid_def lessThan_nat_numeral lessThan_Suc)

lemma isr_periodic:
  assumes hi: "heap_inv s" and ne: "alarm_heap_count s \<noteq> 0"
    and a: "alarm_heap_data s ! 0 = Ptr a" and per: "periodic (objs s ! a)"
  shows "\<exists>s1 s2 s3 idx s'. a < length (objs s)
     \<and> remove_alarm 0 (reg_write Int_clr_t0 s) = Some s1
     \<and> unat (alarm_heap_count s1) = unat (alarm_heap_count s) - 1
     \<and> unat (alarm_heap_count s1) < 16
     \<and> set_alarm_when (Ptr a) (interval (objs s ! a)) s1 = Some s2
     \<and> alarm_heap_count s2 = alarm_heap_count s1
     \<and> insert_alarm (Ptr a) s2 = Some s3
     \<and> timer_alarm_isr s = Some s'
     \<and> heap_inv s'
     \<and> length (objs s') = length (objs s)
     \<and> objs s' ! a = (objs s ! a)\<lparr>when := hw_counter s + interval (objs s ! a), heap_index := of_nat idx\<rparr>
     \<and> idx < unat (alarm_heap_count s)
     \<and> pending s' = take idx (tl (pending s)) @ Ptr a # drop idx (tl (pending s))
     \<and> unat (alarm_heap_count s') = unat (alarm_heap_count s)
     \<and> irq_queue s' = irq_queue s @ [a]"
proof -
  from isr_fire [OF hi ne] a obtain s1 where
    r: "a < length (objs s)" "remove_alarm 0 (reg_write Int_clr_t0 s) = Some s1" "heap_inv s1"
      "unat (alarm_heap_count s1) = unat (alarm_heap_count s) - 1"
      "length (objs s1) = length (objs s)"
      "objs s1 ! a = (objs s ! a)\<lparr>heap_index := - 1\<rparr>" "pending s1 = tl (pending s)"
      "irq_queue s1 = irq_queue s" "hw_counter s1 = hw_counter s"
      "timer_alarm_isr s =
          ((if periodic (objs s ! a)
            then set_alarm_when (Ptr a) (interval (objs s ! a)) s1 \<bind> insert_alarm (Ptr a)
            else Some s1) \<bind> load_next_alarm) \<bind> mp_irq_queue_interrupt (Ptr a)"
    by auto
  have n16: "unat (alarm_heap_count s) \<le> 16"
    using hi position_invD(2) by (simp add: heap_inv_def)
  from ne have pos: "0 < unat (alarm_heap_count s)" by (simp add: unat_gt_0)
  with n16 r(4) have room: "unat (alarm_heap_count s1) < 16" by simp
  have a1: "a < length (objs s1)" "heap_index (objs s1 ! a) = - 1"
    using r(1) by (simp_all add: r(5,6))
  from set_alarm_when_spec [OF a1(1), of "interval (objs s ! a)"] obtain s2 where
    s2: "set_alarm_when (Ptr a) (interval (objs s ! a)) s1 = Some s2"
      "alarm_heap_count s2 = alarm_heap_count s1"
    by simp
  from activate_effect [OF r(3) a1 room, of "interval (objs s ! a)"] obtain idx s3 where
    e: "(set_alarm_when (Ptr a) (interval (objs s ! a)) s1 \<bind> insert_alarm (Ptr a)) = Some s3"
      "heap_inv s3"
      "unat (alarm_heap_count s3) = Suc (unat (alarm_heap_count s1))"
      "idx \<le> unat (alarm_heap_count s1)"
      "pending s3 = take idx (pending s1) @ Ptr a # drop idx (pending s1)"
      "length (objs s3) = length (objs s1)"
      "objs s3 ! a = (objs s1 ! a)\<lparr>when := hw_counter s1 + interval (objs s ! a), heap_index := of_nat idx\<rparr>"
      "irq_queue s3 = irq_queue s1"
    by blast
  from e(1) s2(1) have ins: "insert_alarm (Ptr a) s2 = Some s3" by simp
  from e(2) have "position_inv s3" by (simp add: heap_inv_def)
  from load_next_alarm_ok [OF this] obtain s4 where
    s4: "load_next_alarm s3 = Some s4" "alarm_heap_count s4 = alarm_heap_count s3"
      "alarm_heap_data s4 = alarm_heap_data s3" "objs s4 = objs s3" "irq_queue s4 = irq_queue s3"
    by blast
  let ?s' = "s4\<lparr>irq_queue := irq_queue s4 @ [a]\<rparr>"
  have fr: "alarm_heap_count ?s' = alarm_heap_count s3" "alarm_heap_data ?s' = alarm_heap_data s3"
    "objs ?s' = objs s3" by (simp_all add: s4)
  have isr: "timer_alarm_isr s = Some ?s'"
    using per by (simp add: r(10) e(1) s4(1) mp_irq_queue_interrupt_def)
  have c1: "heap_inv ?s'" using e(2) by (simp add: heap_cong(6) [OF fr])
  have c2: "pending ?s' = take idx (tl (pending s)) @ Ptr a # drop idx (tl (pending s))"
    using e(5) by (simp add: heap_cong(2) [OF fr] r(7))
  have c3: "objs ?s' ! a = (objs s ! a)\<lparr>when := hw_counter s + interval (objs s ! a), heap_index := of_nat idx\<rparr>"
    by (simp add: s4 e(7) r(6,9))
  have c4: "idx < unat (alarm_heap_count s)" using e(4) r(4) pos by simp
  have c5: "unat (alarm_heap_count ?s') = unat (alarm_heap_count s)"
    using e(3) r(4) pos by (simp add: s4)
  show ?thesis
    apply (rule exI [of _ s1], rule exI [of _ s2], rule exI [of _ s3], rule exI [of _ idx],
        rule exI [of _ ?s'], intro conjI)
    using r(1) apply assumption
    using r(2) apply assumption
    using r(4) apply assumption
    using room apply assumption
    using s2(1) apply assumption
    using s2(2) apply assumption
    using ins apply assumption
    using isr apply assumption
    using c1 apply assumption
    using e(6) r(5) apply (simp add: s4)
    using c3 apply assumption
    using c4 apply assumption
    using c2 apply assumption
    using c5 apply assumption
    using e(8) r(8) apply (simp add: s4)
    done
qed

lemma count_lt_max: "alarm_heap_count s < ALARM_HEAP_MAX_ELEMENTS \<longleftrightarrow> unat (alarm_heap_count s) < 16"
  by (simp add: ALARM_HEAP_MAX_ELEMENTS_def word_less_nat_alt)

lemma wrap_machine_inv: "heap_inv wrap_machine"
  by (simp add: heap_inv_def position_inv_def ordered_def deadlines_def pending_def deadline_def
        read_alarm_def wrap_machine_def machine_of_def alarm_obj_def ALARM_HEAP_MAX_ELEMENTS_def
        points_back_def position_valid_def lessThan_nat_numeral lessThan_Suc)

lemma member_pending_insert:
  "pending s' = take idx xs @ Ptr a # drop idx xs \<Longrightarrow> member s' a"
  by (simp add: member_def)

lemma length_pending:
  "position_inv s \<Longrightarrow> length (pending s) = unat (alarm_heap_count s)"
  using position_invD(1,2) [of s] by (simp add: pending_def)

lemma nth_pending:
  "k < unat (alarm_heap_count s) \<Longrightarrow> position_inv s \<Longrightarrow> pending s ! k = alarm_heap_data s ! k"
  by (simp add: pending_def)

lemma member_iff:
  assumes "position_inv s"
  shows "member s a \<longleftrightarrow> (\<exists>k<unat (alarm_heap_count s). alarm_heap_data s ! k = Ptr a)"
proof -
  have "member s a \<longleftrightarrow> (\<exists>k<length (pending s). pending s ! k = Ptr a)"
    by (auto simp: member_def in_set_conv_nth)
  also have "\<dots> \<longleftrightarrow> (\<exists>k<unat (alarm_heap_count s). alarm_heap_data s ! k = Ptr a)"
    using assms by (auto simp: length_pending nth_pending)
  finally show ?thesis .
qed

lemma position_inv_linked:
  assumes inv: "position_inv s"
  shows "position_linked s"
  unfolding position_linked_def
proof (intro ballI conjI impI)
  fix a assume "a \<in> {..<length (objs s)}"
  then have a: "a < length (objs s)" by simp
  have n16: "unat (alarm_heap_count s) \<le> 16" using position_invD(2) [OF inv] .
  show "position_valid s a \<longleftrightarrow> member s a"
  proof
    assume "position_valid s a"
    then show "member s a"
      by (auto simp: position_valid_def member_iff [OF inv])
  next
    assume "member s a"
    then obtain k where k: "k < unat (alarm_heap_count s)" "alarm_heap_data s ! k = Ptr a"
      by (auto simp: member_iff [OF inv])
    from position_invD(3) [OF inv k(1)] k(2) have hk: "heap_index (objs s ! a) = of_nat k" by auto
    have "k \<le> 16" using k(1) n16 by simp
    then have "unat (heap_index (objs s ! a)) = k" by (simp add: hk unat_of_nat_small)
    with k show "position_valid s a" by (simp add: position_valid_def)
  qed
  show "heap_index (objs s ! a) = - 1" if "\<not> member s a"
  proof (rule ccontr)
    assume "heap_index (objs s ! a) \<noteq> - 1"
    from position_invD(4) [OF inv a this] have "member s a"
      by (auto simp: member_iff [OF inv])
    with that show False by simp
  qed
qed

lemma position_inv_points_back:
  "position_inv s \<Longrightarrow> k < length (pending s) \<Longrightarrow> points_back s k"
  using position_invD(3) [of s k] by (auto simp: length_pending points_back_def)

lemma isr_position_inv:
  assumes inv: "position_inv s"
  shows "\<exists>s'. timer_alarm_isr s = Some s' \<and> position_inv s' \<and> length (objs s') = length (objs s)"
proof (cases "alarm_heap_count s = 0")
  case True
  have fr0: "alarm_heap_count (reg_write Int_clr_t0 s) = alarm_heap_count s"
    "alarm_heap_data (reg_write Int_clr_t0 s) = alarm_heap_data s"
    "objs (reg_write Int_clr_t0 s) = objs s" by simp_all
  from inv show ?thesis by (simp add: isr_empty [OF True] heap_cong(1) [OF fr0])
next
  case False
  let ?s0 = "reg_write Int_clr_t0 s"
  have fr0: "alarm_heap_count ?s0 = alarm_heap_count s" "alarm_heap_data ?s0 = alarm_heap_data s"
    "objs ?s0 = objs s" by simp_all
  have inv0: "position_inv ?s0" using inv by (simp add: heap_cong(1) [OF fr0])
  from False have pos: "0 < unat (alarm_heap_count ?s0)" by (simp add: unat_gt_0)
  from remove_effect [OF inv0 pos] obtain a s1 where
    r: "alarm_heap_data ?s0 ! 0 = Ptr a" "a < length (objs ?s0)"
      "remove_alarm (of_nat 0) ?s0 = Some s1" "position_inv s1"
      "unat (alarm_heap_count s1) = unat (alarm_heap_count ?s0) - 1"
      "length (objs s1) = length (objs ?s0)"
      "heap_index (objs s1 ! a) = - 1"
    by blast
  have a1: "a < length (objs s1)" using r(2,6) by simp
  have lD: "length (alarm_heap_data s) = 16" using position_invD(1) [OF inv] .
  have n16: "unat (alarm_heap_count s) \<le> 16" using position_invD(2) [OF inv] .
  have rs: "read_slot 0 ?s0 = Some (Ptr a)"
    using r(1) lD by (simp add: read_slot_def)
  have rm: "remove_alarm 0 ?s0 = Some s1" using r(3) by simp
  have ra: "read_alarm (Ptr a) s1 = Some (objs s1 ! a)"
    using a1 by (simp add: read_alarm_def)
  have "0 < alarm_heap_count ?s0" using pos by (simp add: word_less_nat_alt)
  then have isr: "timer_alarm_isr s =
          ((if periodic (objs s1 ! a)
            then set_alarm_when (Ptr a) (interval (objs s1 ! a)) s1 \<bind> insert_alarm (Ptr a)
            else Some s1) \<bind> load_next_alarm) \<bind> mp_irq_queue_interrupt (Ptr a)"
    by (simp add: timer_alarm_isr_def Let_def rs rm ra)
  have "\<exists>s2. (if periodic (objs s1 ! a)
            then set_alarm_when (Ptr a) (interval (objs s1 ! a)) s1 \<bind> insert_alarm (Ptr a)
            else Some s1) = Some s2 \<and> position_inv s2 \<and> length (objs s2) = length (objs s)"
  proof (cases "periodic (objs s1 ! a)")
    case True
    let ?w = "hw_counter s1 + interval (objs s1 ! a)"
    define s2 where "s2 = (reg_write Update s1)\<lparr>objs := (objs s1)[a := (objs s1 ! a)\<lparr>when := ?w\<rparr>]\<rparr>"
    have saw: "set_alarm_when (Ptr a) (interval (objs s1 ! a)) s1 = Some s2"
      unfolding s2_def using a1 by (rule set_alarm_when_spec)
    have sel: "alarm_heap_count s2 = alarm_heap_count s1" "alarm_heap_data s2 = alarm_heap_data s1"
      "length (objs s2) = length (objs s1)"
      by (simp_all add: s2_def)
    have h2: "\<forall>b<length (objs s1). heap_index (objs s2 ! b) = heap_index (objs s1 ! b)"
      using a1 by (auto simp: s2_def nth_list_update)
    have inv2: "position_inv s2"
      using r(4) sel h2 by (rule position_inv_transfer)
    have a2: "a < length (objs s2)" "heap_index (objs s2 ! a) = - 1"
      using a1 h2 r(7) by (simp_all add: sel)
    have room: "unat (alarm_heap_count s2) < 16"
      using r(5) pos n16 by (simp add: sel)
    from insert_effect [OF inv2 a2 room] obtain s3 where
      "insert_alarm (Ptr a) s2 = Some s3" "position_inv s3" "length (objs s3) = length (objs s2)"
      by blast
    with True saw r(6) show ?thesis by (simp add: sel)
  next
    case False
    with r(4,6) show ?thesis by simp
  qed
  then obtain s2 where s2: "(if periodic (objs s1 ! a)
            then set_alarm_when (Ptr a) (interval (objs s1 ! a)) s1 \<bind> insert_alarm (Ptr a)
            else Some s1) = Some s2" "position_inv s2" "length (objs s2) = length (objs s)"
    by blast
  from load_next_alarm_ok [OF s2(2)] obtain s3 where
    s3: "load_next_alarm s2 = Some s3" "alarm_heap_count s3 = alarm_heap_count s2"
      "alarm_heap_data s3 = alarm_heap_data s2" "objs s3 = objs s2"
    by blast
  let ?s' = "s3\<lparr>irq_queue := irq_queue s3 @ [a]\<rparr>"
  have fr: "alarm_heap_count ?s' = alarm_heap_count s2" "alarm_heap_data ?s' = alarm_heap_data s2"
    "objs ?s' = objs s2" by (simp_all add: s3)
  have "timer_alarm_isr s = Some ?s'"
    by (simp add: isr s2(1) s3(1) mp_irq_queue_interrupt_def)
  moreover have "position_inv ?s'" using s2(2) by (simp add: heap_cong(1) [OF fr])
  moreover have "length (objs ?s') = length (objs s)" using s2(3) by (simp add: s3)
  ultimately show ?thesis by blast
qed

lemma two_pending_position_inv: "position_inv two_pending"
  using two_pending_inv by (simp add: heap_inv_def)

lemma operation_ok_cong:
  "length (objs s') = length (objs s) \<Longrightarrow> operation_ok s' x = operation_ok s x"
  by (cases x) simp_all

lemma step_heap_inv:
  assumes "heap_inv s" "operation_ok s x"
  shows "\<exists>s'. step x s = Some s' \<and> heap_inv s' \<and> length (objs s') = length (objs s)"
proof (cases x)
  case (Callback self h arg)
  with assms(2) have "self < length (objs s)" by simp
  from helper_heap_inv [OF assms(1) this, of h arg] Callback show ?thesis
    by (auto simp: alarm_callback_def)
next
  case (Cancel self)
  with assms(2) have "self < length (objs s)" by simp
  from alarm_delete_heap_inv [OF assms(1) this] Cancel show ?thesis by auto
next
  case Isr
  with isr_heap_inv [OF assms(1)] show ?thesis by simp
next
  case (Advance n)
  have fr: "alarm_heap_count (s\<lparr>hw_counter := hw_counter s + n\<rparr>) = alarm_heap_count s"
    "alarm_heap_data (s\<lparr>hw_counter := hw_counter s + n\<rparr>) = alarm_heap_data s"
    "objs (s\<lparr>hw_counter := hw_counter s + n\<rparr>) = objs s" by simp_all
  from assms(1) Advance show ?thesis by (simp add: heap_cong(6) [OF fr])
qed

lemma run_heap_inv:
  assumes "heap_inv s" "\<forall>x\<in>set ops. operation_ok s x"
  shows "\<exists>s'. run ops s = Some s' \<and> heap_inv s' \<and> length (objs s') = length (objs s)"
  using assms
proof (induction ops arbitrary: s)
  case Nil
  then show ?case by simp
next
  case (Cons x xs)
  from Cons.prems have "operation_ok s x" by simp
  from step_heap_inv [OF Cons.prems(1) this] obtain s1 where
    s1: "step x s = Some s1" "heap_inv s1" "length (objs s1) = length (objs s)" by blast
  from Cons.prems(2) have "\<forall>y\<in>set xs. operation_ok s1 y"
    by (simp add: operation_ok_cong [OF s1(3)])
  from Cons.IH [OF s1(2) this] s1 show ?case by auto
qed

lemma heap_inv_head_min:
  assumes "heap_inv s" "alarm_heap_count s \<noteq> 0"
  shows "deadline s (alarm_heap_data s ! 0) = Min (set (deadlines s))"
proof -
  from assms(1) have inv: "position_inv s" and ord: "sorted (deadlines s)"
    by (simp_all add: heap_inv_def ordered_def)
  show ?thesis
    using sorted_hd_Min [OF ord] deadlines_hd [OF inv assms(2)] by simp
qed

lemma init_heap_inv:
  assumes "\<forall>b<length (objs s). heap_index (objs s ! b) = - 1"
  shows "heap_inv (init_alarm_heap block s)"
proof -
  have "position_inv (init_alarm_heap block s)"
    by (rule position_invI) (use assms in \<open>simp_all add: init_alarm_heap_def\<close>)
  moreover have "ordered (init_alarm_heap block s)"
    by (simp add: ordered_def deadlines_def pending_def init_alarm_heap_def)
  ultimately show ?thesis by (simp add: heap_inv_def)
qed

lemma heap_inv_new_object:
  assumes hi: "heap_inv s" and idle: "heap_index v = - 1"
  shows "heap_inv (s\<lparr>objs := objs s @ [v]\<rparr>)"
proof -
  let ?s' = "s\<lparr>objs := objs s @ [v]\<rparr>"
  from hi have inv: "position_inv s" and ord: "ordered s" by (simp_all add: heap_inv_def)
  have old: "objs ?s' ! b = objs s ! b" if "b < length (objs s)" for b
    using that by (simp add: nth_append)
  have new: "objs ?s' ! length (objs s) = v" by simp
  have pi: "position_inv ?s'"
  proof (rule position_invI)
    show "length (alarm_heap_data ?s') = 16" "unat (alarm_heap_count ?s') \<le> 16"
      using position_invD(1,2) [OF inv] by simp_all
    show "\<exists>a. alarm_heap_data ?s' ! i = Ptr a \<and> a < length (objs ?s') \<and> heap_index (objs ?s' ! a) = of_nat i"
      if "i < unat (alarm_heap_count ?s')" for i
    proof -
      from that position_invD(3) [OF inv, of i] obtain a where
        a: "alarm_heap_data s ! i = Ptr a" "a < length (objs s)" "heap_index (objs s ! a) = of_nat i"
        by auto
      then show ?thesis using old [OF a(2)] by (intro exI [of _ a]) simp
    qed
    show "unat (heap_index (objs ?s' ! a)) < unat (alarm_heap_count ?s') \<and>
           alarm_heap_data ?s' ! unat (heap_index (objs ?s' ! a)) = Ptr a"
      if "a < length (objs ?s')" "heap_index (objs ?s' ! a) \<noteq> - 1" for a
    proof (cases "a < length (objs s)")
      case True
      with that(2) old [OF True] have "heap_index (objs s ! a) \<noteq> - 1" by simp
      from position_invD(4) [OF inv True this] old [OF True] show ?thesis by simp
    next
      case False
      with that(1) have "a = length (objs s)" by simp
      with that(2) new idle show ?thesis by simp
    qed
  qed
  have "deadline ?s' p = deadline s p" if "p \<in> set (pending s)" for p
  proof -
    from that obtain k where k: "k < unat (alarm_heap_count s)" "p = alarm_heap_data s ! k"
      using position_invD(1,2) [OF inv] by (auto simp: pending_def in_set_conv_nth)
    from position_invD(3) [OF inv k(1)] obtain b where
      b: "alarm_heap_data s ! k = Ptr b" "b < length (objs s)" by blast
    then show ?thesis using k(2) old [OF b(2)] by (simp add: deadline_def read_alarm_def)
  qed
  moreover have "pending ?s' = pending s" by (simp add: pending_def)
  ultimately have "deadlines ?s' = deadlines s" by (simp add: deadlines_def)
  with ord have "ordered ?s'" by (simp add: ordered_def)
  with pi show ?thesis by (simp add: heap_inv_def)
qed

lemma alarm_make_new_heap_inv:
  assumes "heap_inv s"
  shows "\<exists>r s'. alarm_make_new clk blank h s_arg ms us arg p s = Some (r, s') \<and> heap_inv s'"
proof -
  define v where "v clocks = blank\<lparr>interval := clocks, periodic := p, heap_index := - 1\<rparr>" for clocks
  have hv: "heap_index (v clocks) = - 1" for clocks by (simp add: v_def)
  have ok: "\<exists>r s'. alarm_set_callback_helper (length (objs s)) h arg (s\<lparr>objs := objs s @ [v clocks]\<rparr>)
      = Some (r, s') \<and> heap_inv s'" for clocks
    using helper_heap_inv [OF heap_inv_new_object [OF assms hv], of "length (objs s)" clocks h arg]
    by auto
  let ?f = "case s_arg of None \<Rightarrow> s_default | Some f \<Rightarrow> f"
  let ?clocks = "to_clocks ?f + ucast (ms * (clk div 1000)) + ucast (us * (clk div 1000000))"
  from ok [of ?clocks] obtain r s' where
    r: "alarm_set_callback_helper (length (objs s)) h arg (s\<lparr>objs := objs s @ [v ?clocks]\<rparr>)
      = Some (r, s')" "heap_inv s'"
    by blast
  show ?thesis
  proof (cases "(of_bool (ne_zero ?f) + of_bool (ms \<noteq> 0) + of_bool (us \<noteq> 0) :: int) \<noteq> 1")
    case True
    then show ?thesis using assms by (simp add: alarm_make_new_def Let_def)
  next
    case single: False
    show ?thesis
    proof (cases "lt_zero ?f \<or> ms < 0 \<or> us < 0")
      case True
      with single show ?thesis using assms by (simp add: alarm_make_new_def Let_def)
    next
      case False
      with single r show ?thesis
        by (simp add: alarm_make_new_def Let_def v_def)
    qed
  qed
qed

lemma before_in_iff:
  "before_in xs x y \<longleftrightarrow> (\<exists>i j. i < j \<and> j < length xs \<and> xs ! i = x \<and> xs ! j = y)"
  by (auto simp: before_in_def)

lemma precedes_iff:
  "precedes s x y \<longleftrightarrow>
     (\<exists>i j. i < j \<and> j < length (pending s) \<and> pending s ! i = Ptr x \<and> pending s ! j = Ptr y)"
  by (simp add: precedes_def before_in_iff)

lemma nth_insert_at:
  assumes "n \<le> length xs" "k \<le> length xs"
  shows "(take n xs @ z # drop n xs) ! k = (if k < n then xs ! k else if k = n then z else xs ! (k - 1))"
proof -
  consider "k < n" | "k = n" | "n < k" by linarith
  then show ?thesis
  proof cases
    case 1
    then show ?thesis using assms by (simp add: nth_append)
  next
    case 2
    then show ?thesis using assms by (simp add: nth_append)
  next
    case 3
    then have e: "k - n = Suc (k - n - 1)" "n + (k - n - 1) = k - 1" by simp_all
    have "(take n xs @ z # drop n xs) ! k = (z # drop n xs) ! (k - n)"
      using 3 assms by (simp add: nth_append)
    also have "\<dots> = drop n xs ! (k - n - 1)" by (subst e(1)) simp
    also have "\<dots> = xs ! (k - 1)" using assms 3 e(2) by simp
    finally show ?thesis using 3 by simp
  qed
qed

lemma nth_remove_at:
  assumes "r < length xs" "k < length xs - 1"
  shows "(take r xs @ drop (Suc r) xs) ! k = (if k < r then xs ! k else xs ! Suc k)"
proof (cases "k < r")
  case True
  then show ?thesis using assms by (simp add: nth_append)
next
  case False
  then have e: "Suc r + (k - r) = Suc k" by simp
  have "(take r xs @ drop (Suc r) xs) ! k = drop (Suc r) xs ! (k - r)"
    using False assms by (simp add: nth_append)
  also have "\<dots> = xs ! Suc k" using assms e by simp
  finally show ?thesis using False by simp
qed

lemma before_in_insert:
  assumes n: "n \<le> length xs" and b: "before_in xs x y"
  shows "before_in (take n xs @ z # drop n xs) x y"
proof -
  let ?ys = "take n xs @ z # drop n xs"
  from b obtain i j where ij: "i < j" "j < length xs" "xs ! i = x" "xs ! j = y"
    by (auto simp: before_in_iff)
  define i' where "i' = (if i < n then i else Suc i)"
  define j' where "j' = (if j < n then j else Suc j)"
  have l: "length ?ys = Suc (length xs)" using n by simp
  have o: "i' < j'" "j' < length ?ys" "i' \<le> length xs" "j' \<le> length xs"
    using ij by (auto simp: i'_def j'_def l)
  have "?ys ! i' = x"
    using nth_insert_at [OF n o(3), of z] ij(3) by (auto simp: i'_def split: if_splits)
  moreover have "?ys ! j' = y"
    using nth_insert_at [OF n o(4), of z] ij(4) by (auto simp: j'_def split: if_splits)
  ultimately show ?thesis using o(1,2) unfolding before_in_iff by blast
qed

lemma before_in_remove:
  assumes r: "r < length xs" and nx: "xs ! r \<noteq> x" and ny: "xs ! r \<noteq> y"
    and b: "before_in xs x y"
  shows "before_in (take r xs @ drop (Suc r) xs) x y"
proof -
  let ?ys = "take r xs @ drop (Suc r) xs"
  from b obtain i j where ij: "i < j" "j < length xs" "xs ! i = x" "xs ! j = y"
    by (auto simp: before_in_iff)
  from ij nx ny have ne: "i \<noteq> r" "j \<noteq> r" by auto
  define i' where "i' = (if i < r then i else i - 1)"
  define j' where "j' = (if j < r then j else j - 1)"
  have l: "length ?ys = length xs - 1" using r by simp
  have o: "i' < j'" "j' < length xs - 1" "i' < length xs - 1"
    using ij ne r by (auto simp: i'_def j'_def)
  have "?ys ! i' = x"
    using nth_remove_at [OF r o(3)] ij(3) ne by (auto simp: i'_def split: if_splits)
  moreover have "?ys ! j' = y"
    using nth_remove_at [OF r o(2)] ij(4) ne by (auto simp: j'_def split: if_splits)
  moreover have "j' < length ?ys" using o(2) by (simp only: l)
  ultimately show ?thesis using o(1) unfolding before_in_iff by blast
qed

lemma before_in_tl:
  assumes "xs \<noteq> []" "xs ! 0 \<noteq> x" "xs ! 0 \<noteq> y" "before_in xs x y"
  shows "before_in (tl xs) x y"
proof -
  have "0 < length xs" using assms(1) by simp
  from before_in_remove [OF this assms(2,3,4)] show ?thesis by (simp add: drop_Suc)
qed

lemma before_in_new:
  assumes j: "n \<le> j" "j < length xs" "xs ! j = y"
  shows "before_in (take n xs @ x # drop n xs) x y"
proof -
  let ?ys = "take n xs @ x # drop n xs"
  have n: "n \<le> length xs" "Suc j \<le> length xs" using j by simp_all
  have l: "length ?ys = Suc (length xs)" using n by simp
  have "?ys ! n = x"
    using nth_insert_at [OF n(1) n(1), of x] by simp
  moreover have "?ys ! Suc j = y"
    using nth_insert_at [OF n(1) n(2), of x] j by simp
  moreover have "n < Suc j" "Suc j < length ?ys" using j by (simp_all add: l)
  ultimately show ?thesis unfolding before_in_iff by blast
qed

lemma pending_distinct:
  assumes "position_inv s" "i < length (pending s)" "j < length (pending s)"
    and "pending s ! i = pending s ! j"
  shows "i = j"
  using position_inv_distinct [OF assms(1), of i j] assms(2,3,4)
  by (simp add: length_pending [OF assms(1)] nth_pending [OF _ assms(1)])

lemma precedes_not_head:
  assumes "position_inv s" "precedes s x y"
  shows "pending s ! 0 \<noteq> Ptr y" "pending s \<noteq> []" "x \<noteq> y"
proof -
  from assms(2) obtain i j where ij: "i < j" "j < length (pending s)" "pending s ! i = Ptr x"
    "pending s ! j = Ptr y" by (auto simp: precedes_iff)
  show "pending s \<noteq> []"
  proof
    assume "pending s = []"
    with ij(2) show False by simp
  qed
  show "pending s ! 0 \<noteq> Ptr y"
  proof
    assume "pending s ! 0 = Ptr y"
    with ij(4) have "pending s ! 0 = pending s ! j" by simp
    moreover have "0 < length (pending s)" by (rule le_less_trans [OF le0 ij(2)])
    ultimately have "0 = j" using ij(2) by (intro pending_distinct [OF assms(1)])
    with ij(1) show False by simp
  qed
  show "x \<noteq> y"
  proof
    assume "x = y"
    with ij(3,4) have "pending s ! i = pending s ! j" by simp
    moreover have "i < length (pending s)" using ij(1,2) by simp
    ultimately have "i = j" using ij(2) by (intro pending_distinct [OF assms(1)])
    with ij(1) show False by simp
  qed
qed

lemma store_callback_pending [simp]: "pending (store_callback self h arg s) = pending s"
  by (simp add: pending_def)

lemma removed_frame:
  "s' = s\<lparr>alarm_heap_count := c, alarm_heap_data := d, objs := ob\<rparr> \<Longrightarrow> irq_queue s' = irq_queue s"
  by simp

lemma callback_shape:
  assumes hi: "heap_inv s" and self: "b < length (objs s)"
  shows "\<exists>r s'. alarm_set_callback_helper b h arg s = Some (r, s') \<and> heap_inv s'
     \<and> length (objs s') = length (objs s) \<and> irq_queue s' = irq_queue s
     \<and> (pending s' = pending s
          \<or> (\<exists>i<length (pending s). pending s ! i = Ptr b
                \<and> pending s' = take i (pending s) @ drop (Suc i) (pending s))
          \<or> (\<exists>n\<le>length (pending s). pending s' = take n (pending s) @ Ptr b # drop n (pending s)))"
proof -
  let ?s3 = "store_callback b h arg s"
  have hi3: "heap_inv ?s3" using hi by (rule store_callback_heap_inv)
  then have inv3: "position_inv ?s3" by (simp add: heap_inv_def)
  have self3: "b < length (objs ?s3)" using self by simp
  have idx3: "heap_index (objs ?s3 ! b) = heap_index (objs s ! b)"
    using self by (simp add: store_callback_obj)
  from hi have inv: "position_inv s" by (simp add: heap_inv_def)
  have lp: "length (pending s) = unat (alarm_heap_count s)" using inv by (rule length_pending)
  consider (pending) "heap_index (objs s ! b) \<noteq> - 1" "h \<noteq> mp_const_none"
    | (idle_none) "heap_index (objs s ! b) = - 1" "h = mp_const_none"
    | (full) "heap_index (objs s ! b) = - 1" "h \<noteq> mp_const_none"
        "alarm_heap_count s = ALARM_HEAP_MAX_ELEMENTS"
    | (deactivate) "heap_index (objs s ! b) \<noteq> - 1" "h = mp_const_none"
    | (activate) "heap_index (objs s ! b) = - 1" "h \<noteq> mp_const_none"
        "alarm_heap_count s \<noteq> ALARM_HEAP_MAX_ELEMENTS"
    by blast
  then show ?thesis
  proof cases
    case pending
    with hi3 self show ?thesis by (simp add: helper_pending)
  next
    case idle_none
    with hi3 self show ?thesis by (simp add: helper_idle_none)
  next
    case full
    with hi3 self show ?thesis by (simp add: helper_full)
  next
    case deactivate
    from deactivate(1) idx3 have ne: "heap_index (objs ?s3 ! b) \<noteq> - 1" by simp
    define i where "i = unat (heap_index (objs ?s3 ! b))"
    note rng = heap_index_in_range [OF inv3 self3 ne]
    have i: "i < length (pending s)" "pending s ! i = Ptr b"
      using rng(2,3) inv by (simp_all add: i_def lp nth_pending)
    from remove_pending_alarm [OF hi3 self3 ne] obtain s' where
      r: "remove_alarm (heap_index (objs ?s3 ! b)) ?s3 = Some s'" "heap_inv s'"
        "pending s' = take i (pending ?s3) @ drop (Suc i) (pending ?s3)"
        "length (objs s') = length (objs ?s3)"
        "s' = ?s3\<lparr>alarm_heap_count := alarm_heap_count s', alarm_heap_data := alarm_heap_data s',
                objs := objs s'\<rparr>"
      unfolding i_def by blast
    have q: "irq_queue s' = irq_queue s" using removed_frame [OF r(5)] by simp
    from r(1) have r1: "remove_alarm (heap_index (objs s ! b)) ?s3 = Some s'"
      by (simp only: idx3)
    have "alarm_set_callback_helper b h arg s = Some (Return (), s')"
      using deactivate self r1 by (simp add: helper_deactivate)
    moreover have "\<exists>i<length (pending s). pending s ! i = Ptr b
                \<and> pending s' = take i (pending s) @ drop (Suc i) (pending s)"
      using i r(3) by auto
    ultimately show ?thesis using r(2,4) q by auto
  next
    case activate
    have "alarm_heap_count ?s3 \<noteq> ALARM_HEAP_MAX_ELEMENTS" using activate(3) by simp
    then have room: "unat (alarm_heap_count ?s3) < 16" by (simp only: room_iff [OF inv3])
    from activate(1) idx3 have "heap_index (objs ?s3 ! b) = - 1" by simp
    from activate_effect [OF hi3 self3 this room, of "interval (objs s ! b)"] obtain idx s' where
      r: "(set_alarm_when (Ptr b) (interval (objs s ! b)) ?s3 \<bind> insert_alarm (Ptr b)) = Some s'"
        "heap_inv s'" "length (objs s') = length (objs ?s3)"
        "idx \<le> unat (alarm_heap_count ?s3)"
        "pending s' = take idx (pending ?s3) @ Ptr b # drop idx (pending ?s3)"
        "irq_queue s' = irq_queue ?s3"
      by blast
    have "alarm_set_callback_helper b h arg s = Some (Return (), s')"
      using activate self r(1) by (simp add: helper_activate)
    moreover have "\<exists>n\<le>length (pending s). pending s' = take n (pending s) @ Ptr b # drop n (pending s)"
      using r(4,5) lp by auto
    ultimately show ?thesis using r(2,3,6) by auto
  qed
qed

lemma cancel_shape:
  assumes hi: "heap_inv s" and self: "b < length (objs s)"
  shows "\<exists>s'. alarm_delete b s = Some s' \<and> heap_inv s'
     \<and> length (objs s') = length (objs s) \<and> irq_queue s' = irq_queue s
     \<and> (pending s' = pending s
          \<or> (\<exists>i<length (pending s). pending s ! i = Ptr b
                \<and> pending s' = take i (pending s) @ drop (Suc i) (pending s)))"
proof (cases "heap_index (objs s ! b) = - 1")
  case True
  with hi self show ?thesis by (simp add: alarm_delete_idle)
next
  case False
  from hi have inv: "position_inv s" by (simp add: heap_inv_def)
  define i where "i = unat (heap_index (objs s ! b))"
  note rng = heap_index_in_range [OF inv self False]
  have i: "i < length (pending s)" "pending s ! i = Ptr b"
    using rng(2,3) inv by (simp_all add: i_def length_pending nth_pending)
  from remove_pending_alarm [OF hi self False] obtain s' where
    r: "remove_alarm (heap_index (objs s ! b)) s = Some s'" "heap_inv s'"
      "pending s' = take i (pending s) @ drop (Suc i) (pending s)"
      "length (objs s') = length (objs s)"
      "s' = s\<lparr>alarm_heap_count := alarm_heap_count s', alarm_heap_data := alarm_heap_data s',
                objs := objs s'\<rparr>"
    unfolding i_def by blast
  have q: "irq_queue s' = irq_queue s" using removed_frame [OF r(5)] .
  have "alarm_delete b s = Some s'"
    using r(1) by (simp add: alarm_delete_pending [OF hi self False])
  with r(2,3,4) q i show ?thesis by auto
qed

lemma isr_shape:
  assumes hi: "heap_inv s"
  shows "\<exists>s'. timer_alarm_isr s = Some s' \<and> heap_inv s' \<and> length (objs s') = length (objs s)
     \<and> ((pending s = [] \<and> irq_queue s' = irq_queue s \<and> pending s' = [])
          \<or> (\<exists>a. pending s \<noteq> [] \<and> pending s ! 0 = Ptr a \<and> irq_queue s' = irq_queue s @ [a]
                \<and> (pending s' = tl (pending s)
                     \<or> (\<exists>n\<le>length (tl (pending s)).
                           pending s' = take n (tl (pending s)) @ Ptr a # drop n (tl (pending s))))))"
proof (cases "alarm_heap_count s = 0")
  case True
  have fr0: "alarm_heap_count (reg_write Int_clr_t0 s) = alarm_heap_count s"
    "alarm_heap_data (reg_write Int_clr_t0 s) = alarm_heap_data s"
    "objs (reg_write Int_clr_t0 s) = objs s" by simp_all
  have "pending s = []" using True by (simp add: pending_def)
  with hi show ?thesis
    by (simp add: isr_empty [OF True] heap_cong(6) [OF fr0] heap_cong(2) [OF fr0])
next
  case False
  from hi have inv: "position_inv s" by (simp add: heap_inv_def)
  from False have pos: "0 < unat (alarm_heap_count s)" by (simp add: unat_gt_0)
  from position_invD(3) [OF inv pos] obtain a where a: "alarm_heap_data s ! 0 = Ptr a" by blast
  have lp: "length (pending s) = unat (alarm_heap_count s)" using inv by (rule length_pending)
  have p0: "pending s \<noteq> []" "pending s ! 0 = Ptr a"
    using pos lp a nth_pending [OF pos inv] by auto
  show ?thesis
  proof (cases "periodic (objs s ! a)")
    case True
    from isr_periodic [OF hi False a True] obtain idx s' where
      r: "timer_alarm_isr s = Some s'" "heap_inv s'" "length (objs s') = length (objs s)"
        "idx < unat (alarm_heap_count s)"
        "pending s' = take idx (tl (pending s)) @ Ptr a # drop idx (tl (pending s))"
        "irq_queue s' = irq_queue s @ [a]"
      by blast
    have "idx \<le> length (tl (pending s))" using r(4) lp by simp
    with r p0 show ?thesis by auto
  next
    case one: False
    from isr_oneshot_idle [OF hi False a one] obtain s' where
      r: "timer_alarm_isr s = Some s'" "heap_inv s'" "a < length (objs s')"
        "objs s' ! a = (objs s ! a)\<lparr>heap_index := - 1\<rparr>"
        "pending s' = tl (pending s)" "irq_queue s' = irq_queue s @ [a]"
      by blast
    from isr_heap_inv [OF hi] r(1) have "length (objs s') = length (objs s)" by auto
    with r p0 show ?thesis by auto
  qed
qed

lemma shape_precedes:
  assumes inv: "position_inv s" and b: "b \<noteq> x" "b \<noteq> y" and p: "precedes s x y"
    and sh: "pending s' = pending s
          \<or> (\<exists>i<length (pending s). pending s ! i = Ptr b
                \<and> pending s' = take i (pending s) @ drop (Suc i) (pending s))
          \<or> (\<exists>n\<le>length (pending s). pending s' = take n (pending s) @ Ptr b # drop n (pending s))"
  shows "precedes s' x y"
proof -
  from p have bi: "before_in (pending s) (Ptr x) (Ptr y)" by (simp add: precedes_def)
  from sh consider "pending s' = pending s"
    | i where "i < length (pending s)" "pending s ! i = Ptr b"
        "pending s' = take i (pending s) @ drop (Suc i) (pending s)"
    | n where "n \<le> length (pending s)" "pending s' = take n (pending s) @ Ptr b # drop n (pending s)"
    by blast
  then show ?thesis
  proof cases
    case 1
    with p show ?thesis by (simp add: precedes_def)
  next
    case 2
    from 2(2) b have "pending s ! i \<noteq> Ptr x" "pending s ! i \<noteq> Ptr y" by simp_all
    from before_in_remove [OF 2(1) this bi] show ?thesis by (simp add: precedes_def 2(3))
  next
    case 3
    from before_in_insert [OF 3(1) bi] show ?thesis by (simp add: precedes_def 3(2))
  qed
qed

lemma step_queue:
  assumes "heap_inv s" "operation_ok s op"
  shows "\<exists>s' q. step op s = Some s' \<and> heap_inv s' \<and> length (objs s') = length (objs s)
     \<and> irq_queue s' = irq_queue s @ q"
proof (cases op)
  case (Callback b h arg)
  with assms(2) have "b < length (objs s)" by simp
  from callback_shape [OF assms(1) this, of h arg] obtain r s' where
    r: "alarm_set_callback_helper b h arg s = Some (r, s')" "heap_inv s'"
      "length (objs s') = length (objs s)" "irq_queue s' = irq_queue s"
    by blast
  have "step op s = Some s'" by (simp add: Callback alarm_callback_def r(1))
  with r(2,3,4) show ?thesis by simp
next
  case (Cancel b)
  with assms(2) have "b < length (objs s)" by simp
  from cancel_shape [OF assms(1) this] obtain s' where
    r: "alarm_delete b s = Some s'" "heap_inv s'"
      "length (objs s') = length (objs s)" "irq_queue s' = irq_queue s"
    by blast
  have "step op s = Some s'" by (simp add: Cancel r(1))
  with r(2,3,4) show ?thesis by simp
next
  case Isr
  from isr_shape [OF assms(1)] obtain s' where
    r: "timer_alarm_isr s = Some s'" "heap_inv s'" "length (objs s') = length (objs s)"
    and q: "irq_queue s' = irq_queue s \<or> (\<exists>a. irq_queue s' = irq_queue s @ [a])"
    by blast
  have st: "step op s = Some s'" by (simp add: Isr r(1))
  from q have "\<exists>q. irq_queue s' = irq_queue s @ q"
  proof
    assume "irq_queue s' = irq_queue s"
    then have "irq_queue s' = irq_queue s @ []" by simp
    then show ?thesis ..
  next
    assume "\<exists>a. irq_queue s' = irq_queue s @ [a]"
    then show ?thesis by blast
  qed
  with st r(2,3) show ?thesis by blast
next
  case (Advance n)
  have fr: "alarm_heap_count (s\<lparr>hw_counter := hw_counter s + n\<rparr>) = alarm_heap_count s"
    "alarm_heap_data (s\<lparr>hw_counter := hw_counter s + n\<rparr>) = alarm_heap_data s"
    "objs (s\<lparr>hw_counter := hw_counter s + n\<rparr>) = objs s" by simp_all
  from assms(1) have "heap_inv (s\<lparr>hw_counter := hw_counter s + n\<rparr>)"
    by (simp only: heap_cong(6) [OF fr])
  then show ?thesis by (simp add: Advance)
qed

lemma step_precedes:
  assumes hi: "heap_inv s" and ok: "operation_ok s op"
    and nt: "\<not> touches op x" "\<not> touches op y" and p: "precedes s x y"
  shows "\<exists>s' q. step op s = Some s' \<and> heap_inv s' \<and> length (objs s') = length (objs s)
     \<and> irq_queue s' = irq_queue s @ q
     \<and> ((precedes s' x y \<and> x \<notin> set q \<and> y \<notin> set q) \<or> q = [x])"
proof -
  from hi have inv: "position_inv s" by (simp add: heap_inv_def)
  show ?thesis
  proof (cases op)
    case (Callback b h arg)
    with ok nt have b: "b < length (objs s)" "b \<noteq> x" "b \<noteq> y" by simp_all
    from callback_shape [OF hi b(1), of h arg] obtain r s' where
      r: "alarm_set_callback_helper b h arg s = Some (r, s')" "heap_inv s'"
        "length (objs s') = length (objs s)" "irq_queue s' = irq_queue s"
      and sh: "pending s' = pending s
          \<or> (\<exists>i<length (pending s). pending s ! i = Ptr b
                \<and> pending s' = take i (pending s) @ drop (Suc i) (pending s))
          \<or> (\<exists>n\<le>length (pending s). pending s' = take n (pending s) @ Ptr b # drop n (pending s))"
      by blast
    from shape_precedes [OF inv b(2,3) p sh] have pr: "precedes s' x y" .
    have "step op s = Some s'" by (simp add: Callback alarm_callback_def r(1))
    with r(2,3,4) pr show ?thesis by simp
  next
    case (Cancel b)
    with ok nt have b: "b < length (objs s)" "b \<noteq> x" "b \<noteq> y" by simp_all
    from cancel_shape [OF hi b(1)] obtain s' where
      r: "alarm_delete b s = Some s'" "heap_inv s'"
        "length (objs s') = length (objs s)" "irq_queue s' = irq_queue s"
      and sh: "pending s' = pending s
          \<or> (\<exists>i<length (pending s). pending s ! i = Ptr b
                \<and> pending s' = take i (pending s) @ drop (Suc i) (pending s))"
      by blast
    from sh have "pending s' = pending s
          \<or> (\<exists>i<length (pending s). pending s ! i = Ptr b
                \<and> pending s' = take i (pending s) @ drop (Suc i) (pending s))
          \<or> (\<exists>n\<le>length (pending s). pending s' = take n (pending s) @ Ptr b # drop n (pending s))"
      by blast
    from shape_precedes [OF inv b(2,3) p this] have pr: "precedes s' x y" .
    have "step op s = Some s'" by (simp add: Cancel r(1))
    with r(2,3,4) pr show ?thesis by simp
  next
    case Isr
    note nh = precedes_not_head [OF inv p]
    from p have bi: "before_in (pending s) (Ptr x) (Ptr y)" by (simp add: precedes_def)
    from isr_shape [OF hi] obtain s' where
      r0: "timer_alarm_isr s = Some s'" "heap_inv s'" "length (objs s') = length (objs s)"
      and d0: "(pending s = [] \<and> irq_queue s' = irq_queue s \<and> pending s' = [])
          \<or> (\<exists>a. pending s \<noteq> [] \<and> pending s ! 0 = Ptr a \<and> irq_queue s' = irq_queue s @ [a]
                \<and> (pending s' = tl (pending s)
                     \<or> (\<exists>n\<le>length (tl (pending s)).
                           pending s' = take n (tl (pending s)) @ Ptr a # drop n (tl (pending s)))))"
      by blast
    from d0 nh(2) r0 obtain a where
      r: "timer_alarm_isr s = Some s'" "heap_inv s'" "length (objs s') = length (objs s)"
        "pending s ! 0 = Ptr a" "irq_queue s' = irq_queue s @ [a]"
      and sh: "pending s' = tl (pending s)
                     \<or> (\<exists>n\<le>length (tl (pending s)).
                           pending s' = take n (tl (pending s)) @ Ptr a # drop n (tl (pending s)))"
      by blast
    have st: "step op s = Some s'" by (simp add: Isr r(1))
    from r(4) nh(1) have ay: "a \<noteq> y" by auto
    show ?thesis
    proof (cases "a = x")
      case True
      with r(5) have "irq_queue s' = irq_queue s @ [x]" by simp
      with st r(2,3) show ?thesis by blast
    next
      case False
      with r(4) ay have "pending s ! 0 \<noteq> Ptr x" "pending s ! 0 \<noteq> Ptr y" by simp_all
      from before_in_tl [OF nh(2) this bi] have t: "before_in (tl (pending s)) (Ptr x) (Ptr y)" .
      have "precedes s' x y"
      proof -
        from sh consider "pending s' = tl (pending s)"
          | n where "n \<le> length (tl (pending s))"
              "pending s' = take n (tl (pending s)) @ Ptr a # drop n (tl (pending s))"
          by blast
        then show ?thesis
        proof cases
          case 1
          with t show ?thesis by (simp add: precedes_def)
        next
          case 2
          from before_in_insert [OF 2(1) t] show ?thesis by (simp add: precedes_def 2(2))
        qed
      qed
      moreover from False ay have "x \<notin> set [a]" "y \<notin> set [a]" by simp_all
      ultimately show ?thesis using st r(2,3,5) by blast
    qed
  next
    case (Advance n)
    have fr: "alarm_heap_count (s\<lparr>hw_counter := hw_counter s + n\<rparr>) = alarm_heap_count s"
      "alarm_heap_data (s\<lparr>hw_counter := hw_counter s + n\<rparr>) = alarm_heap_data s"
      "objs (s\<lparr>hw_counter := hw_counter s + n\<rparr>) = objs s" by simp_all
    from hi have "heap_inv (s\<lparr>hw_counter := hw_counter s + n\<rparr>)"
      by (simp only: heap_cong(6) [OF fr])
    moreover from p have "precedes (s\<lparr>hw_counter := hw_counter s + n\<rparr>) x y"
      by (simp only: precedes_def heap_cong(2) [OF fr])
    ultimately show ?thesis by (simp add: Advance)
  qed
qed

lemma run_queue:
  assumes "heap_inv s" "\<forall>op\<in>set ops. operation_ok s op"
  shows "\<exists>s' q. run ops s = Some s' \<and> heap_inv s' \<and> irq_queue s' = irq_queue s @ q"
  using assms
proof (induction ops arbitrary: s)
  case Nil
  then show ?case by simp
next
  case (Cons op ops)
  from Cons.prems have "operation_ok s op" by simp
  from step_queue [OF Cons.prems(1) this] obtain s1 q1 where
    s1: "step op s = Some s1" "heap_inv s1" "length (objs s1) = length (objs s)"
      "irq_queue s1 = irq_queue s @ q1" by blast
  from Cons.prems(2) have "\<forall>y\<in>set ops. operation_ok s1 y"
    by (simp add: operation_ok_cong [OF s1(3)])
  from Cons.IH [OF s1(2) this] obtain s' q2 where
    "run ops s1 = Some s'" "heap_inv s'" "irq_queue s' = irq_queue s1 @ q2" by blast
  with s1 show ?case by simp
qed

lemma delivered_first_skip:
  "x \<notin> set q1 \<Longrightarrow> y \<notin> set q1 \<Longrightarrow> delivered_first x y (q1 @ q2) = delivered_first x y q2"
  by (induction q1) auto

lemma run_precedes:
  assumes "heap_inv s" "precedes s x y"
    and "\<forall>op\<in>set ops. operation_ok s op \<and> \<not> touches op x \<and> \<not> touches op y"
  shows "\<exists>s' q. run ops s = Some s' \<and> heap_inv s' \<and> irq_queue s' = irq_queue s @ q
     \<and> ((precedes s' x y \<and> x \<notin> set q \<and> y \<notin> set q) \<or> delivered_first x y q)"
  using assms
proof (induction ops arbitrary: s)
  case Nil
  then show ?case by simp
next
  case (Cons op ops)
  from Cons.prems(3) have o: "operation_ok s op" "\<not> touches op x" "\<not> touches op y" by simp_all
  from step_precedes [OF Cons.prems(1) o Cons.prems(2)] obtain s1 q1 where
    s1: "step op s = Some s1" "heap_inv s1" "length (objs s1) = length (objs s)"
      "irq_queue s1 = irq_queue s @ q1"
    and d: "(precedes s1 x y \<and> x \<notin> set q1 \<and> y \<notin> set q1) \<or> q1 = [x]"
    by blast
  from Cons.prems(3) have rest: "\<forall>op\<in>set ops. operation_ok s1 op \<and> \<not> touches op x \<and> \<not> touches op y"
    by (simp add: operation_ok_cong [OF s1(3)])
  from d show ?case
  proof
    assume a: "precedes s1 x y \<and> x \<notin> set q1 \<and> y \<notin> set q1"
    then have "precedes s1 x y" by simp
    from Cons.IH [OF s1(2) this rest] obtain s' q2 where
      r: "run ops s1 = Some s'" "heap_inv s'" "irq_queue s' = irq_queue s1 @ q2"
        "(precedes s' x y \<and> x \<notin> set q2 \<and> y \<notin> set q2) \<or> delivered_first x y q2"
      by blast
    from r(4) a have "(precedes s' x y \<and> x \<notin> set (q1 @ q2) \<and> y \<notin> set (q1 @ q2))
        \<or> delivered_first x y (q1 @ q2)"
      by (auto simp: delivered_first_skip)
    with r(1,2,3) s1(1,4) show ?thesis
      by (intro exI [of _ s'] exI [of _ "q1 @ q2"]) simp
  next
    assume a: "q1 = [x]"
    from rest have "\<forall>op\<in>set ops. operation_ok s1 op" by simp
    from run_queue [OF s1(2) this] obtain s' q2 where
      r: "run ops s1 = Some s'" "heap_inv s'" "irq_queue s' = irq_queue s1 @ q2" by blast
    have "delivered_first x y (q1 @ q2)" by (simp add: a)
    with r s1(1,4) show ?thesis
      by (intro exI [of _ s'] exI [of _ "q1 @ q2"]) simp
  qed
qed

lemma member_deadline:
  assumes inv: "position_inv s" and m: "member s y"
  shows "\<exists>j<length (pending s). pending s ! j = Ptr y \<and> deadlines s ! j = when (objs s ! y)
     \<and> y < length (objs s)"
proof -
  from m obtain j where j: "j < length (pending s)" "pending s ! j = Ptr y"
    by (auto simp: member_def in_set_conv_nth)
  from j(1) have jc: "j < unat (alarm_heap_count s)" by (simp add: length_pending [OF inv])
  from position_invD(3) [OF inv jc] j(2) nth_pending [OF jc inv] have y: "y < length (objs s)"
    by auto
  have "deadlines s ! j = deadline s (pending s ! j)" using j(1) by (simp add: deadlines_def)
  also have "\<dots> = when (objs s ! y)" by (simp add: j(2) deadline_Ptr [OF y])
  finally show ?thesis using j y by blast
qed

lemma tie_precedes:
  assumes inv: "position_inv s" and m: "member s y" and eq: "when (objs s ! y) = w"
    and before: "\<forall>k<idx. deadlines s ! k < w"
    and p: "pending s' = take idx (pending s) @ Ptr x # drop idx (pending s)"
  shows "precedes s' x y"
proof -
  from member_deadline [OF inv m] obtain j where
    j: "j < length (pending s)" "pending s ! j = Ptr y" "deadlines s ! j = when (objs s ! y)"
    by blast
  have "idx \<le> j"
  proof (rule ccontr)
    assume "\<not> idx \<le> j"
    then have "j < idx" by simp
    with before have "deadlines s ! j < w" by simp
    with j(3) eq show False by simp
  qed
  from before_in_new [OF this j(1,2)] show ?thesis by (simp add: precedes_def p)
qed

lemma insert_placement:
  assumes hi: "heap_inv s" and a: "a < length (objs s)"
    and idle: "heap_index (objs s ! a) = - 1" and room: "unat (alarm_heap_count s) < 16"
  shows "\<exists>idx s'. insert_alarm (Ptr a) s = Some s' \<and> idx \<le> length (pending s)
     \<and> pending s' = take idx (pending s) @ Ptr a # drop idx (pending s)
     \<and> (\<forall>k<idx. deadlines s ! k < when (objs s ! a))
     \<and> (\<forall>k. idx \<le> k \<and> k < length (pending s) \<longrightarrow> when (objs s ! a) \<le> deadlines s ! k)"
proof -
  from hi have inv: "position_inv s" and ord: "ordered s" by (simp_all add: heap_inv_def)
  note lp = length_pending [OF inv]
  from insert_heap_inv [OF hi a idle room] obtain idx s' where
    r: "insert_alarm (Ptr a) s = Some s'"
      "idx \<le> unat (alarm_heap_count s)"
      "\<forall>k<idx. deadline s (alarm_heap_data s ! k) < when (objs s ! a)"
      "idx < unat (alarm_heap_count s) \<longrightarrow> when (objs s ! a) \<le> deadline s (alarm_heap_data s ! idx)"
      "pending s' = take idx (pending s) @ Ptr a # drop idx (pending s)"
    by blast
  have nth1: "deadlines s ! k = deadline s (alarm_heap_data s ! k)" if "k < unat (alarm_heap_count s)" for k
    using that by (simp add: deadlines_def lp nth_pending [OF that inv])
  have c_before: "\<forall>k<idx. deadlines s ! k < when (objs s ! a)"
  proof (intro allI impI)
    fix k assume "k < idx"
    with r(2,3) nth1 [of k] show "deadlines s ! k < when (objs s ! a)" by simp
  qed
  have c_after: "\<forall>k. idx \<le> k \<and> k < length (pending s) \<longrightarrow> when (objs s ! a) \<le> deadlines s ! k"
  proof (intro allI impI)
    fix k assume k: "idx \<le> k \<and> k < length (pending s)"
    then have i: "idx < unat (alarm_heap_count s)" by (simp add: lp)
    with r(4) nth1 [of idx] have "when (objs s ! a) \<le> deadlines s ! idx" by simp
    also have "\<dots> \<le> deadlines s ! k"
      using ord k by (simp add: ordered_def sorted_nth_mono length_deadlines)
    finally show "when (objs s ! a) \<le> deadlines s ! k" .
  qed
  from r(2) have "idx \<le> length (pending s)" by (simp add: lp)
  with r(1,5) c_before c_after show ?thesis by blast
qed

lemma activation_trace:
  assumes hi: "heap_inv s" and x: "x < length (objs s)"
    and idle: "heap_index (objs s ! x) = - 1" and h: "h \<noteq> mp_const_none"
    and room: "alarm_heap_count s \<noteq> ALARM_HEAP_MAX_ELEMENTS"
    and m: "member s y" and eq: "when (objs s ! y) = hw_counter s + interval (objs s ! x)"
    and ops: "\<forall>op\<in>set ops. operation_ok s op \<and> \<not> touches op x \<and> \<not> touches op y"
  shows "\<exists>s1 s2 q. alarm_set_callback_helper x h arg s = Some (Return (), s1)
     \<and> when (objs s1 ! x) = when (objs s1 ! y) \<and> precedes s1 x y
     \<and> run ops s1 = Some s2 \<and> irq_queue s2 = irq_queue s @ q
     \<and> (y \<in> set q \<longrightarrow> delivered_first x y q)"
proof -
  let ?s3 = "store_callback x h arg s"
  let ?d = "interval (objs s ! x)"
  from hi have inv: "position_inv s" by (simp add: heap_inv_def)
  have hi3: "heap_inv ?s3" using hi by (rule store_callback_heap_inv)
  have x3: "x < length (objs ?s3)" using x by simp
  have idle3: "heap_index (objs ?s3 ! x) = - 1" using x idle by (simp add: store_callback_obj)
  have room3: "unat (alarm_heap_count ?s3) < 16" using room room_iff [OF inv] by simp
  note v = store_callback_views [OF hi, of x h arg]
  from member_deadline [OF inv m] have y: "y < length (objs s)" by blast
  have xy: "y \<noteq> x"
  proof
    assume "y = x"
    with m obtain j where j: "j < length (pending s)" "pending s ! j = Ptr x"
      by (auto simp: member_def in_set_conv_nth)
    from j(1) have jc: "j < unat (alarm_heap_count s)" by (simp add: length_pending [OF inv])
    from position_inv_not_member [OF inv idle jc] j(2) nth_pending [OF jc inv]
    show False by simp
  qed
  from activate_effect [OF hi3 x3 idle3 room3, of ?d] obtain idx s1 where
    r: "(set_alarm_when (Ptr x) ?d ?s3 \<bind> insert_alarm (Ptr x)) = Some s1"
      "heap_inv s1"
      "\<forall>k<idx. deadlines ?s3 ! k < hw_counter ?s3 + ?d"
      "pending s1 = take idx (pending ?s3) @ Ptr x # drop idx (pending ?s3)"
      "length (objs s1) = length (objs ?s3)"
      "objs s1 ! x = (objs ?s3 ! x)\<lparr>when := hw_counter ?s3 + ?d, heap_index := of_nat idx\<rparr>"
      "\<forall>b<length (objs ?s3). b \<noteq> x \<longrightarrow>
           objs s1 ! b = (objs ?s3 ! b)\<lparr>heap_index := heap_index (objs s1 ! b)\<rparr>"
      "irq_queue s1 = irq_queue ?s3"
    by blast
  have run1: "alarm_set_callback_helper x h arg s = Some (Return (), s1)"
    by (simp only: helper_activate [OF x idle h room] r(1)) simp
  have before: "\<forall>k<idx. deadlines s ! k < hw_counter s + ?d"
    using r(3) by (simp add: v)
  have p: "pending s1 = take idx (pending s) @ Ptr x # drop idx (pending s)"
    using r(4) by (simp add: v)
  from tie_precedes [OF inv m eq before p] have pr: "precedes s1 x y" .
  have wx: "when (objs s1 ! x) = hw_counter s + ?d" by (simp add: r(6))
  have "objs s1 ! y = (objs ?s3 ! y)\<lparr>heap_index := heap_index (objs s1 ! y)\<rparr>"
    using r(7) y xy by simp
  from arg_cong [OF this, of "when"] have "when (objs s1 ! y) = when (objs ?s3 ! y)" by simp
  also have "\<dots> = when (objs s ! y)" using y by (simp add: store_callback_obj)
  finally have wy: "when (objs s1 ! y) = hw_counter s + ?d" by (simp add: eq)
  have len: "length (objs s1) = length (objs s)" by (simp add: r(5))
  from ops have ops1: "\<forall>op\<in>set ops. operation_ok s1 op \<and> \<not> touches op x \<and> \<not> touches op y"
    by (simp add: operation_ok_cong [OF len])
  from run_precedes [OF r(2) pr ops1] obtain s2 q where
    t: "run ops s1 = Some s2" "irq_queue s2 = irq_queue s1 @ q"
      "(precedes s2 x y \<and> x \<notin> set q \<and> y \<notin> set q) \<or> delivered_first x y q"
    by blast
  from t(3) have d: "y \<in> set q \<longrightarrow> delivered_first x y q" by blast
  have q: "irq_queue s2 = irq_queue s @ q" by (simp add: t(2) r(8))
  from run1 wx wy pr t(1) q d show ?thesis by simp
qed

lemma tie_machine_inv: "heap_inv tie_machine"
  by (simp add: heap_inv_def position_inv_def ordered_def deadlines_def pending_def deadline_def
        read_alarm_def tie_machine_def machine_of_def alarm_obj_def ALARM_HEAP_MAX_ELEMENTS_def
        points_back_def position_valid_def lessThan_nat_numeral lessThan_Suc)

section \<open>The claims\<close>

text \<open>
  C6. Every call of \<open>load_next_alarm\<close> first disarms the comparator (the first register
  write is \<open>alarm_en = 0\<close>, whatever the state), then arms it if and only if the set is
  non-empty, at the deadline of the alarm at index 0: after the call the comparator is
  enabled exactly when an alarm is pending, and its value is the deadline at index 0,
  which is the least pending deadline. The alarm set itself is not touched.
\<close>

theorem load_next_alarm_arms_earliest:
  assumes "heap_inv s"
  shows "\<exists>s'. load_next_alarm s = Some s'
     \<and> hw_writes s' = hw_writes s @
          (if alarm_heap_count s = 0 then [Alarm_en False]
           else [Alarm_en False,
                 Alarm_high (ucast (drop_bit 32 (deadline s (alarm_heap_data s ! 0)))),
                 Alarm_low (ucast (deadline s (alarm_heap_data s ! 0))),
                 Alarm_en True])
     \<and> (hw_alarm_en s' \<longleftrightarrow> alarm_heap_count s \<noteq> 0)
     \<and> (alarm_heap_count s \<noteq> 0 \<longrightarrow>
          alarm_value s' = deadline s (alarm_heap_data s ! 0) \<and>
          alarm_value s' = Min (set (deadlines s)))
     \<and> alarm_heap_count s' = alarm_heap_count s \<and> alarm_heap_data s' = alarm_heap_data s
     \<and> objs s' = objs s"
proof (cases "alarm_heap_count s = 0")
  case True
  then show ?thesis
    by (simp add: load_next_alarm_empty reg_write_def)
next
  case False
  from assms have inv: "position_inv s" and ord: "sorted (deadlines s)"
    by (simp_all add: heap_inv_def ordered_def)
  have "deadline s (alarm_heap_data s ! 0) = Min (set (deadlines s))"
    using sorted_hd_Min [OF ord] deadlines_hd [OF inv False] by simp
  then show ?thesis
    using False by (simp add: load_next_alarm_pending [OF inv False] reg_write_def alarm_value_def cat_halves)
qed

theorem load_next_alarm_arms_earliest_witness:
  "heap_inv two_pending \<and>
   (\<exists>s'. load_next_alarm two_pending = Some s' \<and>
      hw_writes s' = [Alarm_en False, Alarm_high 0, Alarm_low 3000, Alarm_en True] \<and>
      hw_alarm_en s' \<and> alarm_value s' = 3000 \<and> Min (set (deadlines two_pending)) = 3000)"
proof -
  have h: "heap_inv two_pending"
    by (simp add: heap_inv_def position_inv_def ordered_def deadlines_def pending_def deadline_def
          read_alarm_def two_pending_def machine_of_def alarm_obj_def ALARM_HEAP_MAX_ELEMENTS_def
          points_back_def position_valid_def lessThan_nat_numeral lessThan_Suc)
  have c: "alarm_heap_count two_pending \<noteq> 0"
    "deadline two_pending (alarm_heap_data two_pending ! 0) = 3000"
    "hw_writes two_pending = []"
    by (simp_all add: two_pending_def machine_of_def alarm_obj_def deadline_def read_alarm_def)
  from load_next_alarm_arms_earliest [OF h] c h show ?thesis
    by (auto simp: drop_bit_eq_div)
qed

text \<open>
  C10. When the alarm is already pending and the handler is not \<open>None\<close>,
  \<open>alarm_set_callback_helper\<close> returns normally and changes only the fields \<open>handler\<close>
  and \<open>handler_arg\<close> of that alarm (and hands the handler to \<open>mp_irq_handler_add\<close>):
  the array, the count, the alarm's deadline, interval and position, every other alarm
  and the timer registers are as before.
\<close>

theorem callback_on_pending_alarm_keeps_schedule:
  assumes "self < length (objs s)" "heap_index (objs s ! self) \<noteq> - 1" "h \<noteq> mp_const_none"
  shows "\<exists>s'. alarm_set_callback_helper self h arg s = Some (Return (), s')
     \<and> s' = s\<lparr>objs := (objs s)[self := (objs s ! self)
                   \<lparr>handler := h, handler_arg := (if arg = mp_const_none then mp_obj self else arg)\<rparr>],
               irq_handlers := irq_handlers s @ [h]\<rparr>
     \<and> alarm_heap_count s' = alarm_heap_count s
     \<and> alarm_heap_data s' = alarm_heap_data s
     \<and> pending s' = pending s
     \<and> when (objs s' ! self) = when (objs s ! self)
     \<and> heap_index (objs s' ! self) = heap_index (objs s ! self)
     \<and> interval (objs s' ! self) = interval (objs s ! self)
     \<and> periodic (objs s' ! self) = periodic (objs s ! self)
     \<and> (\<forall>b<length (objs s). b \<noteq> self \<longrightarrow> objs s' ! b = objs s ! b)
     \<and> hw_writes s' = hw_writes s \<and> hw_alarm_en s' = hw_alarm_en s
     \<and> hw_alarm_high s' = hw_alarm_high s \<and> hw_alarm_low s' = hw_alarm_low s"
proof -
  have "alarm_set_callback_helper self h arg s = Some (Return (), store_callback self h arg s)"
    using assms by (rule helper_pending)
  then show ?thesis
    using assms(1) by (simp add: store_callback_def pending_def)
qed

theorem callback_on_pending_alarm_keeps_schedule_witness:
  "(1::nat) < length (objs two_pending) \<and> heap_index (objs two_pending ! 1) \<noteq> - 1
   \<and> mp_obj 7 \<noteq> mp_const_none
   \<and> (\<exists>s'. alarm_set_callback_helper 1 (mp_obj 7) mp_const_none two_pending = Some (Return (), s')
        \<and> pending s' = [Ptr 1, Ptr 0]
        \<and> handler (objs s' ! 1) = mp_obj 7 \<and> handler_arg (objs s' ! 1) = mp_obj 1
        \<and> when (objs s' ! 1) = 3000 \<and> heap_index (objs s' ! 1) = 0)"
proof -
  have h: "(1::nat) < length (objs two_pending)" "heap_index (objs two_pending ! 1) \<noteq> - 1"
    "mp_obj 7 \<noteq> mp_const_none"
    by (simp_all add: two_pending_def machine_of_def alarm_obj_def)
  have v: "pending two_pending = [Ptr 1, Ptr 0]" "when (objs two_pending ! 1) = 3000"
    "heap_index (objs two_pending ! 1) = 0"
    by (simp_all add: two_pending_def machine_of_def alarm_obj_def pending_def)
  from callback_on_pending_alarm_keeps_schedule [OF h, of mp_const_none] obtain s' where
    s': "alarm_set_callback_helper 1 (mp_obj 7) mp_const_none two_pending = Some (Return (), s')"
      "s' = two_pending\<lparr>objs := (objs two_pending)[1 := (objs two_pending ! 1)
                   \<lparr>handler := mp_obj 7, handler_arg := mp_obj 1\<rparr>],
               irq_handlers := irq_handlers two_pending @ [mp_obj 7]\<rparr>"
      "pending s' = pending two_pending"
      "when (objs s' ! 1) = when (objs two_pending ! 1)"
      "heap_index (objs s' ! 1) = heap_index (objs two_pending ! 1)"
    by auto
  have "handler (objs s' ! 1) = mp_obj 7 \<and> handler_arg (objs s' ! 1) = mp_obj 1"
    using h(1) by (simp add: s'(2))
  with s'(1,3,4,5) v h show ?thesis by simp
qed

text \<open>
  C4, as stated, fails: an activation attempted while 16 alarms are pending raises the
  \<open>MemoryError\<close>, but \<open>alarm_set_callback_helper\<close> has stored the new handler in
  the alarm before it looks at the count, so the state after the failed call differs
  from the state before it.
\<close>

theorem failed_activation_overwrites_handler:
  "alarm_heap_count full_machine = 16 \<and> heap_index (objs full_machine ! 16) = - 1
   \<and> map_option fst (alarm_set_callback_helper 16 (mp_obj 7) mp_const_none full_machine)
       = Some (Raise (MemoryError
            ''Alarm cannot be scheduled currently, maximum 16 alarms can be ran in parallel !''))
   \<and> map_option snd (alarm_set_callback_helper 16 (mp_obj 7) mp_const_none full_machine)
       \<noteq> Some full_machine
   \<and> handler (objs full_machine ! 16) = mp_const_none
   \<and> map_option (\<lambda>r. handler (objs (snd r) ! 16))
        (alarm_set_callback_helper 16 (mp_obj 7) mp_const_none full_machine) = Some (mp_obj 7)"
proof -
  have c: "alarm_heap_count full_machine = 16"
    by (simp add: full_machine_def machine_of_def)
  have l: "16 < length (objs full_machine)"
    by (simp add: full_machine_def machine_of_def)
  have o: "objs full_machine ! 16 = alarm_obj 0 500 (- 1) False"
    by (simp add: full_machine_def machine_of_def nth_append)
  have i: "heap_index (objs full_machine ! 16) = - 1" and h0: "handler (objs full_machine ! 16) = mp_const_none"
    by (simp_all add: o alarm_obj_def)
  have r: "alarm_set_callback_helper 16 (mp_obj 7) mp_const_none full_machine =
         Some (Raise (MemoryError
                  ''Alarm cannot be scheduled currently, maximum 16 alarms can be ran in parallel !''),
               store_callback 16 (mp_obj 7) mp_const_none full_machine)"
    using l i by (rule helper_full) (simp_all add: c ALARM_HEAP_MAX_ELEMENTS_def)
  have h1: "handler (objs (store_callback 16 (mp_obj 7) mp_const_none full_machine) ! 16) = mp_obj 7"
    using l by (simp add: store_callback_def)
  then have "store_callback 16 (mp_obj 7) mp_const_none full_machine \<noteq> full_machine"
    using h0 by auto
  with c i h0 h1 r show ?thesis by simp
qed

text \<open>
  C4, amended. An activation of a not-pending alarm attempted while 16 alarms are
  pending raises \<open>MemoryError\<close> to the caller and leaves the alarm set as it was: the
  count is 16, the array, the deadlines and every other alarm object are unchanged, the
  timer registers are not written, and the alarm stays not-pending with its deadline.
  The only effects are the new \<open>handler\<close> and \<open>handler_arg\<close> of the alarm and the
  call of \<open>mp_irq_handler_add\<close>.
\<close>

theorem activation_at_capacity_fails:
  assumes "self < length (objs s)" "heap_index (objs s ! self) = - 1" "h \<noteq> mp_const_none"
    and "alarm_heap_count s = ALARM_HEAP_MAX_ELEMENTS"
  shows "\<exists>s'. alarm_set_callback_helper self h arg s =
           Some (Raise (MemoryError
                  ''Alarm cannot be scheduled currently, maximum 16 alarms can be ran in parallel !''),
                 s')
     \<and> s' = s\<lparr>objs := (objs s)[self := (objs s ! self)
                   \<lparr>handler := h, handler_arg := (if arg = mp_const_none then mp_obj self else arg)\<rparr>],
               irq_handlers := irq_handlers s @ [h]\<rparr>
     \<and> alarm_heap_count s' = 16
     \<and> alarm_heap_data s' = alarm_heap_data s
     \<and> pending s' = pending s
     \<and> deadlines s' = deadlines s
     \<and> (\<forall>b<length (objs s). b \<noteq> self \<longrightarrow> objs s' ! b = objs s ! b)
     \<and> heap_index (objs s' ! self) = - 1
     \<and> when (objs s' ! self) = when (objs s ! self)
     \<and> interval (objs s' ! self) = interval (objs s ! self)
     \<and> periodic (objs s' ! self) = periodic (objs s ! self)
     \<and> hw_writes s' = hw_writes s \<and> hw_alarm_en s' = hw_alarm_en s
     \<and> hw_alarm_high s' = hw_alarm_high s \<and> hw_alarm_low s' = hw_alarm_low s
     \<and> irq_queue s' = irq_queue s"
proof -
  let ?s' = "store_callback self h arg s"
  have r: "alarm_set_callback_helper self h arg s =
           Some (Raise (MemoryError
                  ''Alarm cannot be scheduled currently, maximum 16 alarms can be ran in parallel !''),
                 ?s')"
    using assms by (rule helper_full)
  have p: "pending ?s' = pending s" by (simp add: pending_def)
  have "deadline ?s' q = deadline s q" for q
    by (cases q) (simp_all add: deadline_def read_alarm_def store_callback_obj)
  then have d: "deadlines ?s' = deadlines s" by (simp add: deadlines_def p)
  have o: "\<forall>b<length (objs s). b \<noteq> self \<longrightarrow> objs ?s' ! b = objs s ! b"
    by (simp add: store_callback_def)
  show ?thesis
    apply (rule exI [of _ ?s'], intro conjI)
    using r apply assumption
    apply (simp add: store_callback_def)
    using assms(4) apply (simp add: ALARM_HEAP_MAX_ELEMENTS_def)
    apply simp
    using p apply assumption
    using d apply assumption
    using o apply assumption
    using assms(1,2) apply (simp add: store_callback_obj)
    using assms(1) apply (simp add: store_callback_obj)
    using assms(1) apply (simp add: store_callback_obj)
    using assms(1) apply (simp add: store_callback_obj)
    apply simp_all
    done
qed

theorem activation_at_capacity_fails_witness:
  "(16::nat) < length (objs full_machine) \<and> heap_index (objs full_machine ! 16) = - 1
   \<and> mp_obj 7 \<noteq> mp_const_none \<and> alarm_heap_count full_machine = ALARM_HEAP_MAX_ELEMENTS
   \<and> (\<exists>s'. alarm_set_callback_helper 16 (mp_obj 7) mp_const_none full_machine =
           Some (Raise (MemoryError
                  ''Alarm cannot be scheduled currently, maximum 16 alarms can be ran in parallel !''),
                 s')
        \<and> alarm_heap_count s' = 16 \<and> pending s' = map Ptr [0..<16]
        \<and> heap_index (objs s' ! 16) = - 1)"
proof -
  have h: "(16::nat) < length (objs full_machine)" "heap_index (objs full_machine ! 16) = - 1"
    "mp_obj 7 \<noteq> mp_const_none" "alarm_heap_count full_machine = ALARM_HEAP_MAX_ELEMENTS"
    by (simp_all add: full_machine_def machine_of_def alarm_obj_def nth_append
          ALARM_HEAP_MAX_ELEMENTS_def)
  have p: "pending full_machine = map Ptr [0..<16]"
    by (simp add: full_machine_def machine_of_def pending_def)
  from activation_at_capacity_fails [OF h, of mp_const_none] p h show ?thesis
    by auto
qed

text \<open>
  C7. For an alarm that is not pending, \<open>alarm_delete\<close> (the method \<open>cancel\<close>) returns
  normally with the state unchanged; cancelling twice gives the state of cancelling
  once; and a one-shot alarm that has fired is not pending, so cancelling it is again
  a no-op.
\<close>

theorem cancel_is_idempotent:
  "(a < length (objs s) \<and> heap_index (objs s ! a) = - 1 \<longrightarrow> alarm_delete a s = Some s)
   \<and> (heap_inv s \<and> a < length (objs s) \<longrightarrow>
        (\<exists>s1. alarm_delete a s = Some s1 \<and> alarm_delete a s1 = Some s1))
   \<and> (heap_inv s \<and> alarm_heap_count s \<noteq> 0 \<and> alarm_heap_data s ! 0 = Ptr a \<and> \<not> periodic (objs s ! a) \<longrightarrow>
        (\<exists>s1. timer_alarm_isr s = Some s1 \<and> alarm_delete a s1 = Some s1))"
proof (intro conjI impI)
  assume "a < length (objs s) \<and> heap_index (objs s ! a) = - 1"
  then show "alarm_delete a s = Some s" by (simp add: alarm_delete_idle)
next
  assume "heap_inv s \<and> a < length (objs s)"
  then have h: "heap_inv s" "a < length (objs s)" by simp_all
  from alarm_delete_heap_inv [OF h] obtain s1 where
    s1: "alarm_delete a s = Some s1" "length (objs s1) = length (objs s)"
      "heap_index (objs s1 ! a) = - 1"
    by blast
  from s1(2,3) h(2) have "alarm_delete a s1 = Some s1" by (simp add: alarm_delete_idle)
  with s1(1) show "\<exists>s1. alarm_delete a s = Some s1 \<and> alarm_delete a s1 = Some s1" by blast
next
  assume "heap_inv s \<and> alarm_heap_count s \<noteq> 0 \<and> alarm_heap_data s ! 0 = Ptr a \<and> \<not> periodic (objs s ! a)"
  then have h: "heap_inv s" "alarm_heap_count s \<noteq> 0" "alarm_heap_data s ! 0 = Ptr a"
    "\<not> periodic (objs s ! a)" by simp_all
  from isr_oneshot_idle [OF h] obtain s1 where
    s1: "timer_alarm_isr s = Some s1" "a < length (objs s1)"
      "objs s1 ! a = (objs s ! a)\<lparr>heap_index := - 1\<rparr>"
    by blast
  from s1(2,3) have "alarm_delete a s1 = Some s1" by (simp add: alarm_delete_idle)
  with s1(1) show "\<exists>s1. timer_alarm_isr s = Some s1 \<and> alarm_delete a s1 = Some s1" by blast
qed

theorem cancel_is_idempotent_witness:
  "((2::nat) < length (objs two_pending) \<and> heap_index (objs two_pending ! 2) = - 1
      \<and> alarm_delete 2 two_pending = Some two_pending)
   \<and> (heap_inv two_pending \<and> (0::nat) < length (objs two_pending)
      \<and> (\<exists>s1. alarm_delete 0 two_pending = Some s1 \<and> alarm_delete 0 s1 = Some s1))
   \<and> (heap_inv one_shot_first \<and> alarm_heap_count one_shot_first \<noteq> 0
      \<and> alarm_heap_data one_shot_first ! 0 = Ptr 0 \<and> \<not> periodic (objs one_shot_first ! 0)
      \<and> (\<exists>s1. timer_alarm_isr one_shot_first = Some s1 \<and> alarm_delete 0 s1 = Some s1))"
proof -
  have h1: "(2::nat) < length (objs two_pending) \<and> heap_index (objs two_pending ! 2) = - 1"
    by (simp add: two_pending_def machine_of_def alarm_obj_def)
  have h2: "heap_inv two_pending \<and> (0::nat) < length (objs two_pending)"
    using two_pending_inv by (simp add: two_pending_def machine_of_def)
  have h3: "heap_inv one_shot_first \<and> alarm_heap_count one_shot_first \<noteq> 0
      \<and> alarm_heap_data one_shot_first ! 0 = Ptr 0 \<and> \<not> periodic (objs one_shot_first ! 0)"
    using one_shot_first_inv by (simp add: one_shot_first_def machine_of_def alarm_obj_def)
  from cancel_is_idempotent [of 2 two_pending] h1
  have c1: "alarm_delete 2 two_pending = Some two_pending" by blast
  from cancel_is_idempotent [of 0 two_pending] h2
  have c2: "\<exists>s1. alarm_delete 0 two_pending = Some s1 \<and> alarm_delete 0 s1 = Some s1" by blast
  from cancel_is_idempotent [of 0 one_shot_first] h3
  have c3: "\<exists>s1. timer_alarm_isr one_shot_first = Some s1 \<and> alarm_delete 0 s1 = Some s1" by blast
  from h1 h2 h3 c1 c2 c3 show ?thesis by blast
qed

text \<open>
  C8. In \<open>timer_alarm_isr\<close> the call \<open>remove_alarm(0)\<close> comes before the reinsertion:
  with at most 16 alarms pending on entry, the count is below 16 after the removal and
  still below 16 when \<open>insert_alarm\<close> is called for a periodic alarm, so that call
  writes inside the array (it returns a state), and the whole handler returns.
\<close>

theorem isr_reinsertion_has_room:
  assumes "heap_inv s" "alarm_heap_count s \<noteq> 0"
  shows "\<exists>a s1. alarm_heap_data s ! 0 = Ptr a
     \<and> remove_alarm 0 (reg_write Int_clr_t0 s) = Some s1
     \<and> alarm_heap_count s1 < ALARM_HEAP_MAX_ELEMENTS
     \<and> (periodic (objs s ! a) \<longrightarrow>
          (\<exists>s2 s3. set_alarm_when (Ptr a) (interval (objs s ! a)) s1 = Some s2
             \<and> alarm_heap_count s2 < ALARM_HEAP_MAX_ELEMENTS
             \<and> insert_alarm (Ptr a) s2 = Some s3))
     \<and> (\<exists>s'. timer_alarm_isr s = Some s')"
proof -
  from isr_fire [OF assms] obtain a s1 where
    r: "alarm_heap_data s ! 0 = Ptr a" "remove_alarm 0 (reg_write Int_clr_t0 s) = Some s1"
      "unat (alarm_heap_count s1) = unat (alarm_heap_count s) - 1"
    by blast
  have n16: "unat (alarm_heap_count s) \<le> 16"
    using assms(1) position_invD(2) by (simp add: heap_inv_def)
  from assms(2) have pos: "0 < unat (alarm_heap_count s)" by (simp add: unat_gt_0)
  with n16 r(3) have room: "alarm_heap_count s1 < ALARM_HEAP_MAX_ELEMENTS"
    by (simp add: count_lt_max)
  have per: "\<exists>s2 s3. set_alarm_when (Ptr a) (interval (objs s ! a)) s1 = Some s2
             \<and> alarm_heap_count s2 < ALARM_HEAP_MAX_ELEMENTS
             \<and> insert_alarm (Ptr a) s2 = Some s3" if "periodic (objs s ! a)"
  proof -
    from isr_periodic [OF assms r(1) that] r(2) obtain s2 s3 where
      "set_alarm_when (Ptr a) (interval (objs s ! a)) s1 = Some s2"
      "alarm_heap_count s2 = alarm_heap_count s1" "insert_alarm (Ptr a) s2 = Some s3"
      by auto
    with room show ?thesis by auto
  qed
  from isr_heap_inv [OF assms(1)] have "\<exists>s'. timer_alarm_isr s = Some s'" by blast
  with r(1,2) room per show ?thesis by blast
qed

theorem isr_reinsertion_has_room_witness:
  "heap_inv two_pending \<and> alarm_heap_count two_pending \<noteq> 0
   \<and> (\<exists>s1. alarm_heap_data two_pending ! 0 = Ptr 1
        \<and> remove_alarm 0 (reg_write Int_clr_t0 two_pending) = Some s1
        \<and> alarm_heap_count s1 < ALARM_HEAP_MAX_ELEMENTS
        \<and> (\<exists>s2 s3. set_alarm_when (Ptr 1) 3000 s1 = Some s2
             \<and> alarm_heap_count s2 < ALARM_HEAP_MAX_ELEMENTS
             \<and> insert_alarm (Ptr 1) s2 = Some s3)
        \<and> (\<exists>s'. timer_alarm_isr two_pending = Some s'))"
proof -
  have h: "alarm_heap_count two_pending \<noteq> 0"
    and v: "alarm_heap_data two_pending ! 0 = Ptr 1" "periodic (objs two_pending ! 1)"
      "interval (objs two_pending ! 1) = 3000"
    by (simp_all add: two_pending_def machine_of_def alarm_obj_def)
  from isr_reinsertion_has_room [OF two_pending_inv h] v two_pending_inv h show ?thesis
    by auto
qed

text \<open>
  C5, as stated, fails in its last part. The new deadline is the sum of two 64-bit
  values and wraps: with the counter at \<open>2^64 - 1\<close> and an interval of 2 ticks the
  periodic alarm is reinserted with deadline 1, which is below the tick count sampled
  at fire time.
\<close>

theorem periodic_deadline_can_wrap_into_the_past:
  "alarm_heap_data wrap_machine ! 0 = Ptr 0 \<and> periodic (objs wrap_machine ! 0)
   \<and> interval (objs wrap_machine ! 0) = 2
   \<and> hw_counter wrap_machine = 18446744073709551615
   \<and> map_option (\<lambda>s'. when (objs s' ! 0)) (timer_alarm_isr wrap_machine) = Some 1
   \<and> (1 :: 64 word) < hw_counter wrap_machine"
proof -
  have h: "alarm_heap_count wrap_machine \<noteq> 0"
    and v: "alarm_heap_data wrap_machine ! 0 = Ptr 0" "periodic (objs wrap_machine ! 0)"
      "interval (objs wrap_machine ! 0) = 2" "hw_counter wrap_machine = 18446744073709551615"
    by (simp_all add: wrap_machine_def machine_of_def alarm_obj_def)
  from isr_periodic [OF wrap_machine_inv h v(1,2)] obtain s' idx where
    "timer_alarm_isr wrap_machine = Some s'"
    "objs s' ! 0 = (objs wrap_machine ! 0)\<lparr>when := hw_counter wrap_machine + interval (objs wrap_machine ! 0),
        heap_index := of_nat idx\<rparr>"
    by blast
  then have "map_option (\<lambda>s'. when (objs s' ! 0)) (timer_alarm_isr wrap_machine) = Some 1"
    by (simp add: v)
  with v show ?thesis by simp
qed

text \<open>
  C5, amended. When a periodic alarm with interval \<open>I\<close> fires, \<open>timer_alarm_isr\<close>
  removes it and reinserts it with deadline equal to the tick count sampled at fire
  time plus \<open>I\<close>, computed modulo \<open>2^64\<close> (the previous deadline plays no part); the
  alarm is a member of the set again, and hands over to the deferred dispatch. The new
  deadline is not before the tick count at fire time whenever that sum does not exceed
  the 64-bit range.
\<close>

theorem periodic_fire_reschedules_from_fire_time:
  assumes "heap_inv s" "alarm_heap_count s \<noteq> 0" "alarm_heap_data s ! 0 = Ptr a"
    and "periodic (objs s ! a)"
  shows "\<exists>s'. timer_alarm_isr s = Some s'
     \<and> when (objs s' ! a) = hw_counter s + interval (objs s ! a)
     \<and> interval (objs s' ! a) = interval (objs s ! a)
     \<and> member s' a \<and> position_valid s' a
     \<and> unat (alarm_heap_count s') = unat (alarm_heap_count s)
     \<and> heap_inv s'
     \<and> irq_queue s' = irq_queue s @ [a]
     \<and> (unat (hw_counter s) + unat (interval (objs s ! a)) < 2 ^ 64 \<longrightarrow>
          hw_counter s \<le> when (objs s' ! a))"
proof -
  from isr_periodic [OF assms] obtain idx s' where
    r: "a < length (objs s)" "timer_alarm_isr s = Some s'" "heap_inv s'"
      "length (objs s') = length (objs s)"
      "objs s' ! a = (objs s ! a)\<lparr>when := hw_counter s + interval (objs s ! a), heap_index := of_nat idx\<rparr>"
      "idx < unat (alarm_heap_count s)"
      "pending s' = take idx (tl (pending s)) @ Ptr a # drop idx (tl (pending s))"
      "unat (alarm_heap_count s') = unat (alarm_heap_count s)"
      "irq_queue s' = irq_queue s @ [a]"
    by blast
  have n16: "unat (alarm_heap_count s) \<le> 16"
    using assms(1) position_invD(2) by (simp add: heap_inv_def)
  from r(3) have inv': "position_inv s'" by (simp add: heap_inv_def)
  have "idx \<le> 16" using r(6) n16 by simp
  then have "heap_index (objs s' ! a) \<noteq> - 1" by (simp add: r(5) of_nat_neq_minus1)
  with position_invD(4) [OF inv', of a] r(1,4) have pv: "position_valid s' a"
    by (simp add: position_valid_def)
  have mem: "member s' a" using r(7) by (rule member_pending_insert)
  have nw: "hw_counter s \<le> when (objs s' ! a)"
    if "unat (hw_counter s) + unat (interval (objs s ! a)) < 2 ^ 64"
    using that by (simp add: r(5) no_olen_add_nat)
  from r(2,8,3,9) pv mem nw show ?thesis by (simp add: r(5))
qed

theorem periodic_fire_reschedules_from_fire_time_witness:
  "heap_inv two_pending \<and> alarm_heap_count two_pending \<noteq> 0
   \<and> alarm_heap_data two_pending ! 0 = Ptr 1 \<and> periodic (objs two_pending ! 1)
   \<and> unat (hw_counter two_pending) + unat (interval (objs two_pending ! 1)) < 2 ^ 64
   \<and> (\<exists>s'. timer_alarm_isr two_pending = Some s' \<and> when (objs s' ! 1) = 6000
        \<and> member s' 1 \<and> hw_counter two_pending \<le> when (objs s' ! 1))"
proof -
  have h: "alarm_heap_count two_pending \<noteq> 0"
    "alarm_heap_data two_pending ! 0 = Ptr 1" "periodic (objs two_pending ! 1)"
    and v: "interval (objs two_pending ! 1) = 3000" "hw_counter two_pending = 3000"
    by (simp_all add: two_pending_def machine_of_def alarm_obj_def)
  have n: "unat (hw_counter two_pending) + unat (interval (objs two_pending ! 1)) < 2 ^ 64"
    unfolding v by simp
  from periodic_fire_reschedules_from_fire_time [OF two_pending_inv h] n obtain s' where
    "timer_alarm_isr two_pending = Some s'"
    "when (objs s' ! 1) = hw_counter two_pending + interval (objs two_pending ! 1)"
    "member s' 1" "hw_counter two_pending \<le> when (objs s' ! 1)"
    by blast
  then have "\<exists>s'. timer_alarm_isr two_pending = Some s' \<and> when (objs s' ! 1) = 6000
        \<and> member s' 1 \<and> hw_counter two_pending \<le> when (objs s' ! 1)"
    unfolding v by simp
  with two_pending_inv h n show ?thesis by blast
qed

text \<open>
  C3. \<open>insert_alarm\<close> (for an alarm that is not pending, with a free slot),
  \<open>remove_alarm\<close> (for an index below the count) and \<open>timer_alarm_isr\<close> preserve the
  position invariant: every slot below the count points to an alarm whose
  \<open>heap_index\<close> is that slot, and every alarm whose \<open>heap_index\<close> is not \<open>-1\<close> is the
  alarm its slot points to. Under it an alarm's position is valid if and only if the
  alarm is a member of the set, and is \<open>-1\<close> otherwise. The pending list after an
  insertion is the old one with the new alarm put in at its index, after a removal the
  old one without the removed entry; every alarm that moved has its new index as
  position, and the removed alarm has position \<open>-1\<close>.
\<close>

theorem position_linkage_preserved:
  "(position_inv s \<and> a < length (objs s) \<and> heap_index (objs s ! a) = - 1
      \<and> unat (alarm_heap_count s) < 16 \<longrightarrow>
      (\<exists>idx s'. insert_alarm (Ptr a) s = Some s' \<and> position_inv s' \<and> position_linked s'
         \<and> pending s' = take idx (pending s) @ Ptr a # drop idx (pending s)
         \<and> heap_index (objs s' ! a) = of_nat idx
         \<and> (\<forall>k<length (pending s'). points_back s' k)))
   \<and> (position_inv s \<and> i < unat (alarm_heap_count s) \<longrightarrow>
      (\<exists>b s'. alarm_heap_data s ! i = Ptr b \<and> remove_alarm (of_nat i) s = Some s'
         \<and> position_inv s' \<and> position_linked s'
         \<and> pending s' = take i (pending s) @ drop (Suc i) (pending s)
         \<and> heap_index (objs s' ! b) = - 1
         \<and> (\<forall>k<length (pending s'). points_back s' k)))
   \<and> (position_inv s \<longrightarrow>
      (\<exists>s'. timer_alarm_isr s = Some s' \<and> position_inv s' \<and> position_linked s'
         \<and> (\<forall>k<length (pending s'). points_back s' k)))
   \<and> (position_inv s \<longrightarrow> position_linked s)"
proof (intro conjI impI)
  assume "position_inv s \<and> a < length (objs s) \<and> heap_index (objs s ! a) = - 1
      \<and> unat (alarm_heap_count s) < 16"
  then have h: "position_inv s" "a < length (objs s)" "heap_index (objs s ! a) = - 1"
    "unat (alarm_heap_count s) < 16" by simp_all
  from insert_effect [OF h] obtain idx s' where
    r: "insert_alarm (Ptr a) s = Some s'" "position_inv s'"
      "pending s' = take idx (pending s) @ Ptr a # drop idx (pending s)"
      "heap_index (objs s' ! a) = of_nat idx"
    by blast
  from r(2) have "position_linked s'" "\<forall>k<length (pending s'). points_back s' k"
    by (simp_all add: position_inv_linked position_inv_points_back)
  with r show "\<exists>idx s'. insert_alarm (Ptr a) s = Some s' \<and> position_inv s' \<and> position_linked s'
         \<and> pending s' = take idx (pending s) @ Ptr a # drop idx (pending s)
         \<and> heap_index (objs s' ! a) = of_nat idx
         \<and> (\<forall>k<length (pending s'). points_back s' k)" by blast
next
  assume "position_inv s \<and> i < unat (alarm_heap_count s)"
  then have h: "position_inv s" "i < unat (alarm_heap_count s)" by simp_all
  from remove_effect [OF h] obtain b s' where
    r: "alarm_heap_data s ! i = Ptr b" "remove_alarm (of_nat i) s = Some s'" "position_inv s'"
      "pending s' = take i (pending s) @ drop (Suc i) (pending s)"
      "heap_index (objs s' ! b) = - 1"
    by blast
  from r(3) have "position_linked s'" "\<forall>k<length (pending s'). points_back s' k"
    by (simp_all add: position_inv_linked position_inv_points_back)
  with r show "\<exists>b s'. alarm_heap_data s ! i = Ptr b \<and> remove_alarm (of_nat i) s = Some s'
         \<and> position_inv s' \<and> position_linked s'
         \<and> pending s' = take i (pending s) @ drop (Suc i) (pending s)
         \<and> heap_index (objs s' ! b) = - 1
         \<and> (\<forall>k<length (pending s'). points_back s' k)" by blast
next
  assume h: "position_inv s"
  from isr_position_inv [OF h] obtain s' where
    r: "timer_alarm_isr s = Some s'" "position_inv s'" by blast
  from r(2) have "position_linked s'" "\<forall>k<length (pending s'). points_back s' k"
    by (simp_all add: position_inv_linked position_inv_points_back)
  with r show "\<exists>s'. timer_alarm_isr s = Some s' \<and> position_inv s' \<and> position_linked s'
         \<and> (\<forall>k<length (pending s'). points_back s' k)" by blast
next
  assume "position_inv s"
  then show "position_linked s" by (rule position_inv_linked)
qed

theorem position_linkage_preserved_witness:
  "(position_inv two_pending \<and> (2::nat) < length (objs two_pending)
      \<and> heap_index (objs two_pending ! 2) = - 1 \<and> unat (alarm_heap_count two_pending) < 16
      \<and> (\<exists>idx s'. insert_alarm (Ptr 2) two_pending = Some s' \<and> position_inv s' \<and> position_linked s'
           \<and> pending s' = take idx [Ptr 1, Ptr 0] @ Ptr 2 # drop idx [Ptr 1, Ptr 0]
           \<and> heap_index (objs s' ! 2) = of_nat idx))
   \<and> ((0::nat) < unat (alarm_heap_count two_pending)
      \<and> (\<exists>s'. remove_alarm 0 two_pending = Some s' \<and> position_inv s' \<and> position_linked s'
           \<and> pending s' = [Ptr 0] \<and> heap_index (objs s' ! 1) = - 1))
   \<and> (\<exists>s'. timer_alarm_isr two_pending = Some s' \<and> position_inv s' \<and> position_linked s')
   \<and> position_linked two_pending"
proof -
  note inv = two_pending_position_inv
  have h1: "(2::nat) < length (objs two_pending)" "heap_index (objs two_pending ! 2) = - 1"
    "unat (alarm_heap_count two_pending) < 16"
    and h2: "(0::nat) < unat (alarm_heap_count two_pending)"
    and p: "pending two_pending = [Ptr 1, Ptr 0]" "alarm_heap_data two_pending ! 0 = Ptr 1"
    by (simp_all add: two_pending_def machine_of_def alarm_obj_def pending_def)
  from position_linkage_preserved [of two_pending 2 0] inv h1 h2
  have c1: "\<exists>idx s'. insert_alarm (Ptr 2) two_pending = Some s' \<and> position_inv s' \<and> position_linked s'
           \<and> pending s' = take idx (pending two_pending) @ Ptr 2 # drop idx (pending two_pending)
           \<and> heap_index (objs s' ! 2) = of_nat idx"
    and c2: "\<exists>b s'. alarm_heap_data two_pending ! 0 = Ptr b \<and> remove_alarm (of_nat 0) two_pending = Some s'
         \<and> position_inv s' \<and> position_linked s'
         \<and> pending s' = take 0 (pending two_pending) @ drop (Suc 0) (pending two_pending)
         \<and> heap_index (objs s' ! b) = - 1"
    and c3: "\<exists>s'. timer_alarm_isr two_pending = Some s' \<and> position_inv s' \<and> position_linked s'"
    and c4: "position_linked two_pending"
    by blast+
  from c2 have c2': "\<exists>s'. remove_alarm 0 two_pending = Some s' \<and> position_inv s' \<and> position_linked s'
           \<and> pending s' = [Ptr 0] \<and> heap_index (objs s' ! 1) = - 1"
    by (auto simp: p)
  from c1 have c1': "\<exists>idx s'. insert_alarm (Ptr 2) two_pending = Some s' \<and> position_inv s' \<and> position_linked s'
           \<and> pending s' = take idx [Ptr 1, Ptr 0] @ Ptr 2 # drop idx [Ptr 1, Ptr 0]
           \<and> heap_index (objs s' ! 2) = of_nat idx"
    by (simp only: p)
  from inv h1 h2 c1' c2' c3 c4 show ?thesis by blast
qed

text \<open>
  C2. From a state that satisfies the set invariants, every sequence of calls of
  \<open>callback\<close> (activation or deactivation), \<open>cancel\<close>, the interrupt handler and
  counter advances runs without undefined behaviour and ends in a state where the
  deadlines of the pending alarms are non-decreasing from index 0 to \<open>count - 1\<close> and,
  when the set is not empty, the alarm at index 0 holds the least pending deadline.
  \<open>insert_alarm\<close> and \<open>remove_alarm\<close> each preserve the ordering, the state after
  \<open>init_alarm_heap\<close> satisfies the invariants, and so does the state after the
  constructor \<open>alarm_make_new\<close>. An activation at capacity raises and leaves the set as
  it was, so the statement needs no bound on the sequence.
\<close>

theorem deadlines_stay_ordered:
  "(heap_inv s \<and> (\<forall>x\<in>set ops. operation_ok s x) \<longrightarrow>
      (\<exists>s'. run ops s = Some s' \<and> heap_inv s' \<and> sorted (deadlines s')
         \<and> (alarm_heap_count s' \<noteq> 0 \<longrightarrow>
              deadline s' (alarm_heap_data s' ! 0) = Min (set (deadlines s')))))
   \<and> (heap_inv s \<and> a < length (objs s) \<and> heap_index (objs s ! a) = - 1
        \<and> unat (alarm_heap_count s) < 16 \<longrightarrow>
      (\<exists>s'. insert_alarm (Ptr a) s = Some s' \<and> heap_inv s' \<and> sorted (deadlines s')
         \<and> (alarm_heap_count s' \<noteq> 0 \<longrightarrow>
              deadline s' (alarm_heap_data s' ! 0) = Min (set (deadlines s')))))
   \<and> (heap_inv s \<and> i < unat (alarm_heap_count s) \<longrightarrow>
      (\<exists>s'. remove_alarm (of_nat i) s = Some s' \<and> heap_inv s' \<and> sorted (deadlines s')
         \<and> (alarm_heap_count s' \<noteq> 0 \<longrightarrow>
              deadline s' (alarm_heap_data s' ! 0) = Min (set (deadlines s')))))
   \<and> ((\<forall>b\<in>{..<length (objs s)}. heap_index (objs s ! b) = - 1) \<longrightarrow>
        heap_inv (init_alarm_heap block s))
   \<and> (heap_inv s \<longrightarrow>
        (\<exists>r s'. alarm_make_new clk blank h s_arg ms us arg p s = Some (r, s') \<and> heap_inv s'))"
proof -
  have fin: "heap_inv s' \<and> sorted (deadlines s')
         \<and> (alarm_heap_count s' \<noteq> 0 \<longrightarrow>
              deadline s' (alarm_heap_data s' ! 0) = Min (set (deadlines s')))"
    if "heap_inv s'" for s'
    using that heap_inv_head_min [OF that] by (simp add: heap_inv_def ordered_def)
  have 1: "\<exists>s'. run ops s = Some s' \<and> heap_inv s' \<and> sorted (deadlines s')
         \<and> (alarm_heap_count s' \<noteq> 0 \<longrightarrow>
              deadline s' (alarm_heap_data s' ! 0) = Min (set (deadlines s')))"
    if "heap_inv s \<and> (\<forall>x\<in>set ops. operation_ok s x)"
  proof -
    from that run_heap_inv [of s ops] obtain s' where "run ops s = Some s'" "heap_inv s'" by blast
    with fin [of s'] show ?thesis by blast
  qed
  have 2: "\<exists>s'. insert_alarm (Ptr a) s = Some s' \<and> heap_inv s' \<and> sorted (deadlines s')
         \<and> (alarm_heap_count s' \<noteq> 0 \<longrightarrow>
              deadline s' (alarm_heap_data s' ! 0) = Min (set (deadlines s')))"
    if "heap_inv s \<and> a < length (objs s) \<and> heap_index (objs s ! a) = - 1
        \<and> unat (alarm_heap_count s) < 16"
  proof -
    from that insert_heap_inv [of s a] obtain s' where
      "insert_alarm (Ptr a) s = Some s'" "heap_inv s'" by blast
    with fin [of s'] show ?thesis by blast
  qed
  have 3: "\<exists>s'. remove_alarm (of_nat i) s = Some s' \<and> heap_inv s' \<and> sorted (deadlines s')
         \<and> (alarm_heap_count s' \<noteq> 0 \<longrightarrow>
              deadline s' (alarm_heap_data s' ! 0) = Min (set (deadlines s')))"
    if "heap_inv s \<and> i < unat (alarm_heap_count s)"
  proof -
    from that remove_heap_inv [of s i] obtain s' where
      "remove_alarm (of_nat i) s = Some s'" "heap_inv s'" by blast
    with fin [of s'] show ?thesis by blast
  qed
  have 4: "heap_inv (init_alarm_heap block s)"
    if "\<forall>b\<in>{..<length (objs s)}. heap_index (objs s ! b) = - 1"
    using that by (intro init_heap_inv) simp
  have 5: "\<exists>r s'. alarm_make_new clk blank h s_arg ms us arg p s = Some (r, s') \<and> heap_inv s'"
    if "heap_inv s"
    using that by (rule alarm_make_new_heap_inv)
  from 1 2 3 4 5 show ?thesis by blast
qed

theorem deadlines_stay_ordered_witness:
  "(heap_inv two_pending
      \<and> operation_ok two_pending (Callback 2 (mp_obj 7) mp_const_none)
      \<and> operation_ok two_pending (Cancel 0) \<and> operation_ok two_pending Isr
      \<and> operation_ok two_pending (Advance 10)
      \<and> (\<exists>s'. run [Callback 2 (mp_obj 7) mp_const_none, Advance 10, Cancel 0, Isr] two_pending = Some s'
           \<and> heap_inv s' \<and> sorted (deadlines s')))
   \<and> ((2::nat) < length (objs two_pending) \<and> heap_index (objs two_pending ! 2) = - 1
      \<and> unat (alarm_heap_count two_pending) < 16
      \<and> (\<exists>s'. insert_alarm (Ptr 2) two_pending = Some s' \<and> heap_inv s' \<and> sorted (deadlines s')))
   \<and> ((1::nat) < unat (alarm_heap_count two_pending)
      \<and> (\<exists>s'. remove_alarm 1 two_pending = Some s' \<and> heap_inv s' \<and> sorted (deadlines s')))
   \<and> heap_index (objs (machine_of [] [alarm_obj 0 7 (- 1) False] 0) ! 0) = - 1
   \<and> heap_inv (init_alarm_heap [] (machine_of [] [alarm_obj 0 7 (- 1) False] 0))
   \<and> (\<exists>r s'. alarm_make_new 40000000 (alarm_obj 0 0 0 False) (mp_obj 7) None 5 0 mp_const_none True
                 two_pending = Some (r, s') \<and> heap_inv s')"
proof -
  note inv = two_pending_inv
  let ?ops = "[Callback 2 (mp_obj 7) mp_const_none, Advance 10, Cancel 0, Isr]"
  let ?e = "machine_of [] [alarm_obj 0 7 (- 1) False] 0"
  have ok: "operation_ok two_pending (Callback 2 (mp_obj 7) mp_const_none)"
    "operation_ok two_pending (Cancel 0)" "operation_ok two_pending Isr"
    "operation_ok two_pending (Advance 10)"
    by (simp_all add: two_pending_def machine_of_def)
  then have oks: "\<forall>x\<in>set ?ops. operation_ok two_pending x" by simp
  have h2: "(2::nat) < length (objs two_pending)" "heap_index (objs two_pending ! 2) = - 1"
    "unat (alarm_heap_count two_pending) < 16"
    and h3: "(1::nat) < unat (alarm_heap_count two_pending)"
    by (simp_all add: two_pending_def machine_of_def alarm_obj_def)
  have h4: "heap_index (objs ?e ! 0) = - 1" "\<forall>b\<in>{..<length (objs ?e)}. heap_index (objs ?e ! b) = - 1"
    by (simp_all add: machine_of_def alarm_obj_def)
  from deadlines_stay_ordered [of two_pending ?ops 2 1] inv oks h2 h3
  have c1: "\<exists>s'. run ?ops two_pending = Some s' \<and> heap_inv s' \<and> sorted (deadlines s')"
    and c2: "\<exists>s'. insert_alarm (Ptr 2) two_pending = Some s' \<and> heap_inv s' \<and> sorted (deadlines s')"
    and c3: "\<exists>s'. remove_alarm (of_nat 1) two_pending = Some s' \<and> heap_inv s' \<and> sorted (deadlines s')"
    by blast+
  from deadlines_stay_ordered [of ?e "[]" 0 0 "[]"] h4(2)
  have c4: "heap_inv (init_alarm_heap [] ?e)" by blast
  from deadlines_stay_ordered
    [of two_pending "[]" 0 0 "[]" 40000000 "alarm_obj 0 0 0 False" "mp_obj 7" None 5 0 mp_const_none True] inv
  have c5: "\<exists>r s'. alarm_make_new 40000000 (alarm_obj 0 0 0 False) (mp_obj 7) None 5 0 mp_const_none True
                 two_pending = Some (r, s') \<and> heap_inv s'" by blast
  from c3 have c3': "\<exists>s'. remove_alarm 1 two_pending = Some s' \<and> heap_inv s' \<and> sorted (deadlines s')"
    by simp
  from inv ok h2 h3 h4(1) c1 c2 c3' c4 c5 show ?thesis by blast
qed

text \<open>
  C9 does not hold of \<open>alarm_make_new\<close>. The function counts the non-zero units and
  raises \<open>ValueError\<close> unless exactly one is given, and it tests \<open>ms < 0\<close> and
  \<open>us < 0\<close> to raise \<open>ValueError\<close> for a negative value; but \<open>ms\<close> and \<open>us\<close> are
  \<open>uint32_t\<close>, so these two tests are never true. With \<open>CLK_FREQ\<close> = 40 MHz, the call
  with \<open>ms = -5\<close> (and the call with \<open>us = -1\<close>) returns a new alarm, already pending,
  whose interval is 4294767296 ticks; and the positive value \<open>ms = 67108864\<close> gives
  an alarm with interval 0, the 32-bit product \<open>ms * (CLK_FREQ / 1000)\<close> having wrapped.
\<close>

theorem negative_duration_is_accepted:
  "sint (- 5 :: 32 word) < 0
   \<and> map_option fst
        (alarm_make_new 40000000 (alarm_obj 0 0 0 False) (mp_obj 7) None (- 5) 0 mp_const_none False
           no_alarms) = Some (Return 0)
   \<and> map_option (\<lambda>r. interval (objs (snd r) ! 0))
        (alarm_make_new 40000000 (alarm_obj 0 0 0 False) (mp_obj 7) None (- 5) 0 mp_const_none False
           no_alarms) = Some 4294767296
   \<and> map_option (\<lambda>r. pending (snd r))
        (alarm_make_new 40000000 (alarm_obj 0 0 0 False) (mp_obj 7) None (- 5) 0 mp_const_none False
           no_alarms) = Some [Ptr 0]
   \<and> map_option fst
        (alarm_make_new 40000000 (alarm_obj 0 0 0 False) (mp_obj 7) None 0 (- 1) mp_const_none False
           no_alarms) = Some (Return 0)
   \<and> map_option (\<lambda>r. interval (objs (snd r) ! 0))
        (alarm_make_new 40000000 (alarm_obj 0 0 0 False) (mp_obj 7) None 67108864 0 mp_const_none False
           no_alarms) = Some 0"
  by code_simp

text \<open>
  C1, as stated, fails: two alarms with the same interval are activated at the same
  counter value, alarm 0 first and alarm 1 second. Their deadlines are equal, the set
  holds alarm 1 before alarm 0, and the interrupt handler delivers alarm 1 first.
\<close>

theorem equal_deadlines_fire_in_reverse_order:
  "map_option pending
     (run [Callback 0 (mp_obj 7) mp_const_none, Callback 1 (mp_obj 7) mp_const_none] idle_pair)
     = Some [Ptr 1, Ptr 0]
   \<and> map_option deadlines
     (run [Callback 0 (mp_obj 7) mp_const_none, Callback 1 (mp_obj 7) mp_const_none] idle_pair)
     = Some [5000, 5000]
   \<and> map_option irq_queue
     (run [Callback 0 (mp_obj 7) mp_const_none, Callback 1 (mp_obj 7) mp_const_none, Isr, Isr]
        idle_pair)
     = Some [1, 0]"
  by code_simp

text \<open>
  C1, amended. \<open>insert_alarm\<close> stops its scan at the first entry whose
  deadline is greater than or equal to the new one (\<open>alarm->when <= data[index]->when\<close>).
  The new alarm is therefore placed after all pending alarms with a strictly smaller
  deadline and before all pending alarms with the same or a greater deadline. An alarm
  activated with the deadline of an alarm \<open>y\<close> that is already pending comes before \<open>y\<close>
  in the set, and in every later sequence of operations that neither re-registers nor
  cancels either of them, the interrupt handler delivers \<open>y\<close> only after it has
  delivered the new alarm: ties are broken last in, first out.
\<close>

theorem equal_deadline_insertion_goes_first:
  "(heap_inv s \<and> a < length (objs s) \<and> heap_index (objs s ! a) = - 1
      \<and> unat (alarm_heap_count s) < 16 \<longrightarrow>
      (\<exists>idx s'. insert_alarm (Ptr a) s = Some s' \<and> idx \<le> length (pending s)
         \<and> pending s' = take idx (pending s) @ Ptr a # drop idx (pending s)
         \<and> (\<forall>k<idx. deadlines s ! k < when (objs s ! a))
         \<and> (\<forall>k. idx \<le> k \<and> k < length (pending s) \<longrightarrow> when (objs s ! a) \<le> deadlines s ! k)
         \<and> (\<forall>b. member s b \<and> when (objs s ! b) = when (objs s ! a) \<longrightarrow> precedes s' a b)))
   \<and> (heap_inv s \<and> x < length (objs s) \<and> heap_index (objs s ! x) = - 1
      \<and> h \<noteq> mp_const_none \<and> alarm_heap_count s \<noteq> ALARM_HEAP_MAX_ELEMENTS
      \<and> member s y \<and> when (objs s ! y) = hw_counter s + interval (objs s ! x)
      \<and> (\<forall>op\<in>set ops. operation_ok s op \<and> \<not> touches op x \<and> \<not> touches op y) \<longrightarrow>
      (\<exists>s1 s2 q. alarm_set_callback_helper x h arg s = Some (Return (), s1)
         \<and> when (objs s1 ! x) = when (objs s1 ! y) \<and> precedes s1 x y
         \<and> run ops s1 = Some s2 \<and> irq_queue s2 = irq_queue s @ q
         \<and> (y \<in> set q \<longrightarrow> delivered_first x y q)))"
proof (intro conjI impI)
  assume "heap_inv s \<and> a < length (objs s) \<and> heap_index (objs s ! a) = - 1
      \<and> unat (alarm_heap_count s) < 16"
  then have g: "heap_inv s" "a < length (objs s)" "heap_index (objs s ! a) = - 1"
    "unat (alarm_heap_count s) < 16" by simp_all
  from g(1) have inv: "position_inv s" by (simp add: heap_inv_def)
  from insert_placement [OF g] obtain idx s' where
    r: "insert_alarm (Ptr a) s = Some s'" "idx \<le> length (pending s)"
      "pending s' = take idx (pending s) @ Ptr a # drop idx (pending s)"
      "\<forall>k<idx. deadlines s ! k < when (objs s ! a)"
      "\<forall>k. idx \<le> k \<and> k < length (pending s) \<longrightarrow> when (objs s ! a) \<le> deadlines s ! k"
    by blast
  have "\<forall>b. member s b \<and> when (objs s ! b) = when (objs s ! a) \<longrightarrow> precedes s' a b"
  proof (intro allI impI)
    fix b assume b: "member s b \<and> when (objs s ! b) = when (objs s ! a)"
    then have "member s b" "when (objs s ! b) = when (objs s ! a)" by simp_all
    from tie_precedes [OF inv this r(4,3)] show "precedes s' a b" .
  qed
  with r show "\<exists>idx s'. insert_alarm (Ptr a) s = Some s' \<and> idx \<le> length (pending s)
         \<and> pending s' = take idx (pending s) @ Ptr a # drop idx (pending s)
         \<and> (\<forall>k<idx. deadlines s ! k < when (objs s ! a))
         \<and> (\<forall>k. idx \<le> k \<and> k < length (pending s) \<longrightarrow> when (objs s ! a) \<le> deadlines s ! k)
         \<and> (\<forall>b. member s b \<and> when (objs s ! b) = when (objs s ! a) \<longrightarrow> precedes s' a b)"
    by blast
next
  assume "heap_inv s \<and> x < length (objs s) \<and> heap_index (objs s ! x) = - 1
      \<and> h \<noteq> mp_const_none \<and> alarm_heap_count s \<noteq> ALARM_HEAP_MAX_ELEMENTS
      \<and> member s y \<and> when (objs s ! y) = hw_counter s + interval (objs s ! x)
      \<and> (\<forall>op\<in>set ops. operation_ok s op \<and> \<not> touches op x \<and> \<not> touches op y)"
  then have g: "heap_inv s" "x < length (objs s)" "heap_index (objs s ! x) = - 1"
    "h \<noteq> mp_const_none" "alarm_heap_count s \<noteq> ALARM_HEAP_MAX_ELEMENTS"
    "member s y" "when (objs s ! y) = hw_counter s + interval (objs s ! x)"
    "\<forall>op\<in>set ops. operation_ok s op \<and> \<not> touches op x \<and> \<not> touches op y"
    by simp_all
  from g show "\<exists>s1 s2 q. alarm_set_callback_helper x h arg s = Some (Return (), s1)
         \<and> when (objs s1 ! x) = when (objs s1 ! y) \<and> precedes s1 x y
         \<and> run ops s1 = Some s2 \<and> irq_queue s2 = irq_queue s @ q
         \<and> (y \<in> set q \<longrightarrow> delivered_first x y q)"
    by (rule activation_trace)
qed

theorem equal_deadline_insertion_goes_first_witness:
  "(heap_inv tie_machine \<and> (1::nat) < length (objs tie_machine)
      \<and> heap_index (objs tie_machine ! 1) = - 1 \<and> unat (alarm_heap_count tie_machine) < 16
      \<and> member tie_machine 0 \<and> when (objs tie_machine ! 0) = when (objs tie_machine ! 1)
      \<and> (\<exists>idx s'. insert_alarm (Ptr 1) tie_machine = Some s'
            \<and> pending s' = take idx [Ptr 0] @ Ptr 1 # drop idx [Ptr 0] \<and> precedes s' 1 0))
   \<and> (mp_obj 7 \<noteq> mp_const_none \<and> alarm_heap_count tie_machine \<noteq> ALARM_HEAP_MAX_ELEMENTS
      \<and> when (objs tie_machine ! 0) = hw_counter tie_machine + interval (objs tie_machine ! 1)
      \<and> operation_ok tie_machine Isr \<and> \<not> touches Isr 1 \<and> \<not> touches Isr 0
      \<and> operation_ok tie_machine (Advance 5000) \<and> \<not> touches (Advance 5000) 1
      \<and> \<not> touches (Advance 5000) 0
      \<and> (\<exists>s1 s2 q. alarm_set_callback_helper 1 (mp_obj 7) mp_const_none tie_machine
                       = Some (Return (), s1)
            \<and> when (objs s1 ! 1) = when (objs s1 ! 0) \<and> precedes s1 1 0
            \<and> run [Advance 5000, Isr, Isr] s1 = Some s2 \<and> irq_queue s2 = q
            \<and> (0 \<in> set q \<longrightarrow> delivered_first 1 0 q)))"
proof -
  note inv = tie_machine_inv
  let ?ops = "[Advance 5000, Isr, Isr]"
  have h1: "(1::nat) < length (objs tie_machine)" "heap_index (objs tie_machine ! 1) = - 1"
    "unat (alarm_heap_count tie_machine) < 16"
    "member tie_machine 0" "when (objs tie_machine ! 0) = when (objs tie_machine ! 1)"
    and p: "pending tie_machine = [Ptr 0]"
    and h2: "mp_obj 7 \<noteq> mp_const_none" "alarm_heap_count tie_machine \<noteq> ALARM_HEAP_MAX_ELEMENTS"
      "when (objs tie_machine ! 0) = hw_counter tie_machine + interval (objs tie_machine ! 1)"
    and q0: "irq_queue tie_machine = []"
    by (simp_all add: tie_machine_def machine_of_def alarm_obj_def pending_def member_def
          ALARM_HEAP_MAX_ELEMENTS_def)
  have ok: "operation_ok tie_machine Isr" "\<not> touches Isr 1" "\<not> touches Isr 0"
    "operation_ok tie_machine (Advance 5000)" "\<not> touches (Advance 5000) 1"
    "\<not> touches (Advance 5000) 0"
    by simp_all
  then have oks: "\<forall>op\<in>set ?ops. operation_ok tie_machine op \<and> \<not> touches op 1 \<and> \<not> touches op 0"
    by simp
  from equal_deadline_insertion_goes_first
    [of tie_machine 1 1 "mp_obj 7" 0 ?ops mp_const_none] inv h1 h2 oks
  have c1: "\<exists>idx s'. insert_alarm (Ptr 1) tie_machine = Some s'
         \<and> pending s' = take idx (pending tie_machine) @ Ptr 1 # drop idx (pending tie_machine)
         \<and> precedes s' 1 0"
    and c2: "\<exists>s1 s2 q. alarm_set_callback_helper 1 (mp_obj 7) mp_const_none tie_machine
                       = Some (Return (), s1)
         \<and> when (objs s1 ! 1) = when (objs s1 ! 0) \<and> precedes s1 1 0
         \<and> run ?ops s1 = Some s2 \<and> irq_queue s2 = irq_queue tie_machine @ q
         \<and> (0 \<in> set q \<longrightarrow> delivered_first 1 0 q)"
    by blast+
  from c1 have c1': "\<exists>idx s'. insert_alarm (Ptr 1) tie_machine = Some s'
            \<and> pending s' = take idx [Ptr 0] @ Ptr 1 # drop idx [Ptr 0] \<and> precedes s' 1 0"
    by (simp only: p)
  from c2 have c2': "\<exists>s1 s2 q. alarm_set_callback_helper 1 (mp_obj 7) mp_const_none tie_machine
                       = Some (Return (), s1)
            \<and> when (objs s1 ! 1) = when (objs s1 ! 0) \<and> precedes s1 1 0
            \<and> run ?ops s1 = Some s2 \<and> irq_queue s2 = q
            \<and> (0 \<in> set q \<longrightarrow> delivered_first 1 0 q)"
    by (simp only: q0 append_Nil)
  from inv h1 h2 ok c1' c2' show ?thesis by blast
qed

end
